theory Spec2Isabelle
  imports Complex_Main "HOL-Library.Word" "HOL-Library.Signed_Division"
begin

unbundle bit_operations_syntax

section \<open>Bytes, error codes and run-time panics\<close>

type_synonym byte = "8 word"

text \<open>
  The error codes of \<^verbatim>\<open>errors.go\<close>, with the no-error sentinel
  \<^verbatim>\<open>tinygoerrors.ErrorCodeNil\<close> of the imported error package.
\<close>

datatype ErrorCode =
    ErrorCodeNil
  | ErrorCodeBuffersInvalidBufferSize
  | ErrorCodeBuffersTooMuchPrecisionDigitsForFloat64

text \<open>
  Go checks every index and every slice expression at run time; a failed check is a
  panic. The model returns it as the left summand.
\<close>

datatype panic = IndexOutOfRange | SliceBoundsOutOfRange

text \<open>\<^verbatim>\<open>a[i]\<close> as a value and \<^verbatim>\<open>a[i] = x\<close>, for an index of Go type \<^verbatim>\<open>int\<close>.\<close>

definition index_get :: "'a list \<Rightarrow> int \<Rightarrow> panic + 'a" where
  "index_get a i =
     (if 0 \<le> i \<and> i < int (length a) then Inr (a ! nat i) else Inl IndexOutOfRange)"

definition index_set :: "'a list \<Rightarrow> int \<Rightarrow> 'a \<Rightarrow> panic + 'a list" where
  "index_set a i x =
     (if 0 \<le> i \<and> i < int (length a) then Inr (a[nat i := x]) else Inl IndexOutOfRange)"

section \<open>Byte-order codec\<close>

subsection \<open>The writers of \<^verbatim>\<open>encoding/binary\<close>\<close>

text \<open>
  \<^verbatim>\<open>binary.BigEndian.PutUint16(b, v)\<close> is
  \<^verbatim>\<open>_ = b[1]; b[0] = byte(v >> 8); b[1] = byte(v)\<close>; the little-endian writer stores
  the same bytes in the opposite order. The wider writers follow the same scheme. The
  leading read of the last index is the bounds check of the whole write.
\<close>

definition BigEndian_PutUint16 :: "byte list \<Rightarrow> 16 word \<Rightarrow> panic + byte list" where
  "BigEndian_PutUint16 b v =
     (case index_get b 1 of
        Inl p \<Rightarrow> Inl p
      | Inr _ \<Rightarrow> Inr (b[0 := ucast (drop_bit 8 v), 1 := ucast v]))"

definition LittleEndian_PutUint16 :: "byte list \<Rightarrow> 16 word \<Rightarrow> panic + byte list" where
  "LittleEndian_PutUint16 b v =
     (case index_get b 1 of
        Inl p \<Rightarrow> Inl p
      | Inr _ \<Rightarrow> Inr (b[0 := ucast v, 1 := ucast (drop_bit 8 v)]))"

definition BigEndian_PutUint32 :: "byte list \<Rightarrow> 32 word \<Rightarrow> panic + byte list" where
  "BigEndian_PutUint32 b v =
     (case index_get b 3 of
        Inl p \<Rightarrow> Inl p
      | Inr _ \<Rightarrow> Inr (b[0 := ucast (drop_bit 24 v), 1 := ucast (drop_bit 16 v),
                        2 := ucast (drop_bit 8 v), 3 := ucast v]))"

definition LittleEndian_PutUint32 :: "byte list \<Rightarrow> 32 word \<Rightarrow> panic + byte list" where
  "LittleEndian_PutUint32 b v =
     (case index_get b 3 of
        Inl p \<Rightarrow> Inl p
      | Inr _ \<Rightarrow> Inr (b[0 := ucast v, 1 := ucast (drop_bit 8 v),
                        2 := ucast (drop_bit 16 v), 3 := ucast (drop_bit 24 v)]))"

definition BigEndian_PutUint64 :: "byte list \<Rightarrow> 64 word \<Rightarrow> panic + byte list" where
  "BigEndian_PutUint64 b v =
     (case index_get b 7 of
        Inl p \<Rightarrow> Inl p
      | Inr _ \<Rightarrow> Inr (b[0 := ucast (drop_bit 56 v), 1 := ucast (drop_bit 48 v),
                        2 := ucast (drop_bit 40 v), 3 := ucast (drop_bit 32 v),
                        4 := ucast (drop_bit 24 v), 5 := ucast (drop_bit 16 v),
                        6 := ucast (drop_bit 8 v), 7 := ucast v]))"

definition LittleEndian_PutUint64 :: "byte list \<Rightarrow> 64 word \<Rightarrow> panic + byte list" where
  "LittleEndian_PutUint64 b v =
     (case index_get b 7 of
        Inl p \<Rightarrow> Inl p
      | Inr _ \<Rightarrow> Inr (b[0 := ucast v, 1 := ucast (drop_bit 8 v),
                        2 := ucast (drop_bit 16 v), 3 := ucast (drop_bit 24 v),
                        4 := ucast (drop_bit 32 v), 5 := ucast (drop_bit 40 v),
                        6 := ucast (drop_bit 48 v), 7 := ucast (drop_bit 56 v)]))"

subsection \<open>Encoders\<close>

text \<open>
  An encoder takes the caller's buffer and returns the error code together with the
  buffer as the call leaves it.
\<close>

definition Uint16ToBytes :: "16 word \<Rightarrow> byte list \<Rightarrow> panic + (ErrorCode \<times> byte list)" where
  "Uint16ToBytes v buffer =
     (if length buffer < 2 then Inr (ErrorCodeBuffersInvalidBufferSize, buffer)
      else case BigEndian_PutUint16 buffer v of
             Inl p \<Rightarrow> Inl p
           | Inr b \<Rightarrow> Inr (ErrorCodeNil, b))"

definition Uint32ToBytes :: "32 word \<Rightarrow> byte list \<Rightarrow> panic + (ErrorCode \<times> byte list)" where
  "Uint32ToBytes v buffer =
     (if length buffer < 4 then Inr (ErrorCodeBuffersInvalidBufferSize, buffer)
      else case BigEndian_PutUint32 buffer v of
             Inl p \<Rightarrow> Inl p
           | Inr b \<Rightarrow> Inr (ErrorCodeNil, b))"

definition Uint64ToBytes :: "64 word \<Rightarrow> byte list \<Rightarrow> panic + (ErrorCode \<times> byte list)" where
  "Uint64ToBytes v buffer =
     (if length buffer < 8 then Inr (ErrorCodeBuffersInvalidBufferSize, buffer)
      else case BigEndian_PutUint64 buffer v of
             Inl p \<Rightarrow> Inl p
           | Inr b \<Rightarrow> Inr (ErrorCodeNil, b))"

definition Uint16ToBytesLE :: "16 word \<Rightarrow> byte list \<Rightarrow> panic + (ErrorCode \<times> byte list)" where
  "Uint16ToBytesLE v buffer =
     (if length buffer < 2 then Inr (ErrorCodeBuffersInvalidBufferSize, buffer)
      else case LittleEndian_PutUint16 buffer v of
             Inl p \<Rightarrow> Inl p
           | Inr b \<Rightarrow> Inr (ErrorCodeNil, b))"

definition Uint32ToBytesLE :: "32 word \<Rightarrow> byte list \<Rightarrow> panic + (ErrorCode \<times> byte list)" where
  "Uint32ToBytesLE v buffer =
     (if length buffer < 4 then Inr (ErrorCodeBuffersInvalidBufferSize, buffer)
      else case LittleEndian_PutUint32 buffer v of
             Inl p \<Rightarrow> Inl p
           | Inr b \<Rightarrow> Inr (ErrorCodeNil, b))"

definition Uint64ToBytesLE :: "64 word \<Rightarrow> byte list \<Rightarrow> panic + (ErrorCode \<times> byte list)" where
  "Uint64ToBytesLE v buffer =
     (if length buffer < 8 then Inr (ErrorCodeBuffersInvalidBufferSize, buffer)
      else case LittleEndian_PutUint64 buffer v of
             Inl p \<Rightarrow> Inl p
           | Inr b \<Rightarrow> Inr (ErrorCodeNil, b))"

subsection \<open>Decoders\<close>

text \<open>
  The decoders index \<^verbatim>\<open>data\<close> after the length check, so every index is in range;
  \<^verbatim>\<open>uint16(data[0]) << 8\<close> is a zero extension followed by a left shift.
\<close>

definition BytesToUint16 :: "byte list \<Rightarrow> 16 word \<times> ErrorCode" where
  "BytesToUint16 data =
     (if length data < 2 then (0, ErrorCodeBuffersInvalidBufferSize)
      else (push_bit 8 (ucast (data ! 0)) OR ucast (data ! 1), ErrorCodeNil))"

definition BytesToUint32 :: "byte list \<Rightarrow> 32 word \<times> ErrorCode" where
  "BytesToUint32 data =
     (if length data < 4 then (0, ErrorCodeBuffersInvalidBufferSize)
      else (push_bit 24 (ucast (data ! 0)) OR push_bit 16 (ucast (data ! 1))
              OR push_bit 8 (ucast (data ! 2)) OR ucast (data ! 3), ErrorCodeNil))"

definition BytesToUint64 :: "byte list \<Rightarrow> 64 word \<times> ErrorCode" where
  "BytesToUint64 data =
     (if length data < 8 then (0, ErrorCodeBuffersInvalidBufferSize)
      else (push_bit 56 (ucast (data ! 0)) OR push_bit 48 (ucast (data ! 1))
              OR push_bit 40 (ucast (data ! 2)) OR push_bit 32 (ucast (data ! 3))
              OR push_bit 24 (ucast (data ! 4)) OR push_bit 16 (ucast (data ! 5))
              OR push_bit 8 (ucast (data ! 6)) OR ucast (data ! 7), ErrorCodeNil))"

definition BytesToUint16LE :: "byte list \<Rightarrow> 16 word \<times> ErrorCode" where
  "BytesToUint16LE data =
     (if length data < 2 then (0, ErrorCodeBuffersInvalidBufferSize)
      else (push_bit 8 (ucast (data ! 1)) OR ucast (data ! 0), ErrorCodeNil))"

definition BytesToUint32LE :: "byte list \<Rightarrow> 32 word \<times> ErrorCode" where
  "BytesToUint32LE data =
     (if length data < 4 then (0, ErrorCodeBuffersInvalidBufferSize)
      else (push_bit 24 (ucast (data ! 3)) OR push_bit 16 (ucast (data ! 2))
              OR push_bit 8 (ucast (data ! 1)) OR ucast (data ! 0), ErrorCodeNil))"

definition BytesToUint64LE :: "byte list \<Rightarrow> 64 word \<times> ErrorCode" where
  "BytesToUint64LE data =
     (if length data < 8 then (0, ErrorCodeBuffersInvalidBufferSize)
      else (push_bit 56 (ucast (data ! 7)) OR push_bit 48 (ucast (data ! 6))
              OR push_bit 40 (ucast (data ! 5)) OR push_bit 32 (ucast (data ! 4))
              OR push_bit 24 (ucast (data ! 3)) OR push_bit 16 (ucast (data ! 2))
              OR push_bit 8 (ucast (data ! 1)) OR ucast (data ! 0), ErrorCodeNil))"

section \<open>Symbol tables and scratch buffers\<close>

definition bytes :: "string \<Rightarrow> byte list" where
  "bytes cs = map of_char cs"

definition ASCIIHexDigits :: "byte list" where
  "ASCIIHexDigits = bytes ''0123456789ABCDEF''"

definition ASCIIDecimalDigits :: "byte list" where
  "ASCIIDecimalDigits = bytes ''0123456789''"

text \<open>
  The package-level arrays. \<^verbatim>\<open>UintToHexBuffer\<close> is a \<^verbatim>\<open>[16]byte\<close> and
  \<^verbatim>\<open>UintToDecimalBuffer\<close> a \<^verbatim>\<open>[20]byte\<close>. The arrays named
  \<^verbatim>\<open>IntToDecimalBuffer\<close> and \<^verbatim>\<open>Float64ToDecimalBuffer\<close> are used by the
  functions but their declarations are not part of the sources at hand.
\<close>

record buffers =
  UintToHexBuffer :: "byte list"
  UintToDecimalBuffer :: "byte list"
  IntToDecimalBuffer :: "byte list"
  Float64ToDecimalBuffer :: "byte list"

text \<open>
  Modelled from the spec: the declarations of \<^verbatim>\<open>IntToDecimalBuffer\<close> and
  \<^verbatim>\<open>Float64ToDecimalBuffer\<close> are missing. The spec gives the decimal encoders a
  20-byte buffer and the float encoder an 8-byte buffer (the declared
  \<^verbatim>\<open>Float64Buffer = [8]byte{}\<close>); an array's length is part of its type, so it is
  the same in every state.
\<close>

definition buffers_ok :: "buffers \<Rightarrow> bool" where
  "buffers_ok s \<longleftrightarrow>
     length (UintToHexBuffer s) = 16 \<and> length (UintToDecimalBuffer s) = 20 \<and>
     length (IntToDecimalBuffer s) = 20 \<and> length (Float64ToDecimalBuffer s) = 8"

text \<open>The arrays at program start: Go zero-initialises them.\<close>

definition initial_buffers :: buffers where
  "initial_buffers =
     \<lparr>UintToHexBuffer = replicate 16 0, UintToDecimalBuffer = replicate 20 0,
      IntToDecimalBuffer = replicate 20 0, Float64ToDecimalBuffer = replicate 8 0\<rparr>"

subsection \<open>Views\<close>

text \<open>
  A returned slice does not own its bytes: it names an array and a range
  \<^verbatim>\<open>[lo:hi]\<close> of it, and its contents are whatever the array holds when it is read.
\<close>

datatype bufname = HexBuf | DecBuf | IntBuf | FloatBuf

datatype view = View bufname nat nat | NilView

fun buffer_of :: "buffers \<Rightarrow> bufname \<Rightarrow> byte list" where
  "buffer_of s HexBuf = UintToHexBuffer s"
| "buffer_of s DecBuf = UintToDecimalBuffer s"
| "buffer_of s IntBuf = IntToDecimalBuffer s"
| "buffer_of s FloatBuf = Float64ToDecimalBuffer s"

fun set_buffer :: "buffers \<Rightarrow> bufname \<Rightarrow> byte list \<Rightarrow> buffers" where
  "set_buffer s HexBuf b = s\<lparr>UintToHexBuffer := b\<rparr>"
| "set_buffer s DecBuf b = s\<lparr>UintToDecimalBuffer := b\<rparr>"
| "set_buffer s IntBuf b = s\<lparr>IntToDecimalBuffer := b\<rparr>"
| "set_buffer s FloatBuf b = s\<lparr>Float64ToDecimalBuffer := b\<rparr>"

fun view_len :: "view \<Rightarrow> nat" where
  "view_len (View b lo hi) = hi - lo"
| "view_len NilView = 0"

fun view_bytes :: "buffers \<Rightarrow> view \<Rightarrow> byte list" where
  "view_bytes s (View b lo hi) = take (hi - lo) (drop lo (buffer_of s b))"
| "view_bytes s NilView = []"

text \<open>
  The slice expression \<^verbatim>\<open>a[lo:hi]\<close> on an array of length \<open>n\<close>: Go panics unless
  \<open>0 \<le> lo \<le> hi \<le> n\<close>.
\<close>

definition slice_of :: "bufname \<Rightarrow> nat \<Rightarrow> int \<Rightarrow> int \<Rightarrow> panic + view" where
  "slice_of b n lo hi =
     (if 0 \<le> lo \<and> lo \<le> hi \<and> hi \<le> int n then Inr (View b (nat lo) (nat hi))
      else Inl SliceBoundsOutOfRange)"

text \<open>
  The built-in \<^verbatim>\<open>copy(dst, src)\<close>: it copies \<open>min (len dst) (len src)\<close> bytes and
  behaves as if the source were read in full before the first write, so overlapping
  views of one array are handled.
\<close>

fun copy_view :: "buffers \<Rightarrow> view \<Rightarrow> view \<Rightarrow> buffers" where
  "copy_view s (View b lo hi) src =
     (let n = min (hi - lo) (view_len src);
          a = buffer_of s b
      in set_buffer s b (take lo a @ take n (view_bytes s src) @ drop (lo + n) a))"
| "copy_view s NilView src = s"

section \<open>Hex encoder\<close>

text \<open>
  \<^verbatim>\<open>size/4\<close> is Go's truncating division; the shift count is non-negative behind the
  guard, and the masked value is below 16, so its conversion to \<^verbatim>\<open>int\<close> is exact.
\<close>

definition UintToHexIndex :: "64 word \<Rightarrow> int \<Rightarrow> int \<Rightarrow> int" where
  "UintToHexIndex v sz pos =
     (if pos < 0 \<or> pos > (sz sdiv 4) - 1 then - 1
      else let shift = ((sz sdiv 4) - 1 - pos) * 4
           in uint (drop_bit (nat shift) v AND 0x0F))"

text \<open>The body of the loop \<^verbatim>\<open>for c := range UintToHexBuffer\<close>, shared by the four encoders.\<close>

definition hex_body :: "64 word \<Rightarrow> int \<Rightarrow> byte list \<Rightarrow> nat \<Rightarrow> panic + byte list" where
  "hex_body v sz buf c =
     (let index = UintToHexIndex v sz (int c)
      in if index \<ge> 0 then
           (case index_get ASCIIHexDigits index of
              Inl p \<Rightarrow> Inl p
            | Inr g \<Rightarrow> index_set buf (int c) g)
         else Inr buf)"

fun for_range :: "(byte list \<Rightarrow> nat \<Rightarrow> panic + byte list) \<Rightarrow> nat list \<Rightarrow> byte list \<Rightarrow> panic + byte list" where
  "for_range body [] buf = Inr buf"
| "for_range body (c # cs) buf =
     (case body buf c of Inl p \<Rightarrow> Inl p | Inr buf' \<Rightarrow> for_range body cs buf')"

definition hex_encode :: "buffers \<Rightarrow> 64 word \<Rightarrow> int \<Rightarrow> int \<Rightarrow> panic + (view \<times> buffers)" where
  "hex_encode s v sz n =
     (let a = UintToHexBuffer s
      in case for_range (hex_body v sz) [0..<length a] a of
           Inl p \<Rightarrow> Inl p
         | Inr a' \<Rightarrow>
             (case slice_of HexBuf (length a') 0 n of
                Inl p \<Rightarrow> Inl p
              | Inr vw \<Rightarrow> Inr (vw, s\<lparr>UintToHexBuffer := a'\<rparr>)))"

definition Uint8ToHex :: "buffers \<Rightarrow> 8 word \<Rightarrow> panic + (view \<times> buffers)" where
  "Uint8ToHex s v = hex_encode s (ucast v) 8 2"

definition Uint16ToHex :: "buffers \<Rightarrow> 16 word \<Rightarrow> panic + (view \<times> buffers)" where
  "Uint16ToHex s v = hex_encode s (ucast v) 16 4"

definition Uint32ToHex :: "buffers \<Rightarrow> 32 word \<Rightarrow> panic + (view \<times> buffers)" where
  "Uint32ToHex s v = hex_encode s (ucast v) 32 8"

definition Uint64ToHex :: "buffers \<Rightarrow> 64 word \<Rightarrow> panic + (view \<times> buffers)" where
  "Uint64ToHex s v = hex_encode s v 64 16"

section \<open>Decimal encoder\<close>

text \<open>
  The cursor \<^verbatim>\<open>i\<close> of the decimal encoders stays between \<open>-1\<close> and the length of the
  array, so it is an unbounded integer here; the values are machine words.
\<close>

subsection \<open>Unsigned\<close>

text \<open>The loop \<^verbatim>\<open>for v > 0 && i > 0\<close> of \<^verbatim>\<open>UintToDecimal\<close>.\<close>

function uint_digits_loop :: "64 word \<Rightarrow> int \<Rightarrow> byte list \<Rightarrow> panic + (int \<times> byte list)" where
  "uint_digits_loop v i buf =
     (if v > 0 \<and> i > 0 then
        (case index_get ASCIIDecimalDigits (uint (v mod 10)) of
           Inl p \<Rightarrow> Inl p
         | Inr g \<Rightarrow>
             (case index_set buf (i - 1) g of
                Inl p \<Rightarrow> Inl p
              | Inr buf' \<Rightarrow> uint_digits_loop (v div 10) (i - 1) buf'))
      else Inr (i, buf))"
  by pat_completeness auto
termination
  by (relation "measure (\<lambda>(v, i, buf). nat i)") auto

declare uint_digits_loop.simps [simp del]

definition UintToDecimal :: "buffers \<Rightarrow> 64 word \<Rightarrow> panic + (view \<times> buffers)" where
  "UintToDecimal s v =
     (let a = UintToDecimalBuffer s;
          i = int (length a)
      in case (if v = 0 then
                 (case index_get ASCIIDecimalDigits 0 of
                    Inl p \<Rightarrow> Inl p
                  | Inr g \<Rightarrow>
                      (case index_set a (i - 1) g of
                         Inl p \<Rightarrow> Inl p
                       | Inr a' \<Rightarrow> Inr (i - 1, a')))
               else Inr (i, a)) of
           Inl p \<Rightarrow> Inl p
         | Inr (i1, a1) \<Rightarrow>
             (case uint_digits_loop v i1 a1 of
                Inl p \<Rightarrow> Inl p
              | Inr (i2, a2) \<Rightarrow>
                  (case slice_of DecBuf (length a2) i2 (int (length a2)) of
                     Inl p \<Rightarrow> Inl p
                   | Inr vw \<Rightarrow> Inr (vw, s\<lparr>UintToDecimalBuffer := a2\<rparr>))))"

subsection \<open>Signed\<close>

text \<open>
  \<^verbatim>\<open>IntToDecimal\<close> keeps \<^verbatim>\<open>v\<close> an \<^verbatim>\<open>int64\<close>: the negation \<^verbatim>\<open>v = -v\<close> wraps,
  the comparisons are signed, and \<^verbatim>\<open>%\<close> and \<^verbatim>\<open>/\<close> truncate towards zero.
\<close>

text \<open>Go's \<^verbatim>\<open>/\<close> and \<^verbatim>\<open>%\<close> on \<^verbatim>\<open>int64\<close>, by way of the signed values.\<close>

definition int64_quo :: "64 word \<Rightarrow> 64 word \<Rightarrow> 64 word" where
  "int64_quo a b = word_of_int (sint a sdiv sint b)"

definition int64_rem :: "64 word \<Rightarrow> 64 word \<Rightarrow> 64 word" where
  "int64_rem a b = word_of_int (sint a smod sint b)"

function int_digits_loop :: "64 word \<Rightarrow> int \<Rightarrow> byte list \<Rightarrow> panic + (int \<times> byte list)" where
  "int_digits_loop v i buf =
     (if 0 <s v \<and> i > 0 then
        (case index_get ASCIIDecimalDigits (sint (int64_rem v 10)) of
           Inl p \<Rightarrow> Inl p
         | Inr g \<Rightarrow>
             (case index_set buf (i - 1) g of
                Inl p \<Rightarrow> Inl p
              | Inr buf' \<Rightarrow> int_digits_loop (int64_quo v 10) (i - 1) buf'))
      else Inr (i, buf))"
  by pat_completeness auto
termination
  by (relation "measure (\<lambda>(v, i, buf). nat i)") auto

declare int_digits_loop.simps [simp del]

definition IntToDecimal :: "buffers \<Rightarrow> 64 word \<Rightarrow> panic + (view \<times> buffers)" where
  "IntToDecimal s val =
     (let a = IntToDecimalBuffer s;
          i = int (length a);
          negative = (val <s 0);
          v = (if negative then - val else val)
      in case (if v = 0 then
                 (case index_get ASCIIDecimalDigits 0 of
                    Inl p \<Rightarrow> Inl p
                  | Inr g \<Rightarrow>
                      (case index_set a (i - 1) g of
                         Inl p \<Rightarrow> Inl p
                       | Inr a' \<Rightarrow> Inr (i - 1, a')))
               else Inr (i, a)) of
           Inl p \<Rightarrow> Inl p
         | Inr (i1, a1) \<Rightarrow>
             (case int_digits_loop v i1 a1 of
                Inl p \<Rightarrow> Inl p
              | Inr (i2, a2) \<Rightarrow>
                  (case (if negative \<and> i2 > 0 then
                           (case index_set a2 (i2 - 1) (of_char CHR ''-'') of
                              Inl p \<Rightarrow> Inl p
                            | Inr a' \<Rightarrow> Inr (i2 - 1, a'))
                         else Inr (i2, a2)) of
                     Inl p \<Rightarrow> Inl p
                   | Inr (i3, a3) \<Rightarrow>
                       (case slice_of IntBuf (length a3) i3 (int (length a3)) of
                          Inl p \<Rightarrow> Inl p
                        | Inr vw \<Rightarrow> Inr (vw, s\<lparr>IntToDecimalBuffer := a3\<rparr>)))))"

subsection \<open>Fixed width\<close>

text \<open>The loop \<^verbatim>\<open>for i := 0; i < pad; i++\<close> that writes the leading zeros.\<close>

function zero_fill_loop :: "int \<Rightarrow> int \<Rightarrow> byte list \<Rightarrow> panic + byte list" where
  "zero_fill_loop i pad buf =
     (if i < pad then
        (case index_get ASCIIDecimalDigits 0 of
           Inl p \<Rightarrow> Inl p
         | Inr g \<Rightarrow>
             (case index_set buf i g of
                Inl p \<Rightarrow> Inl p
              | Inr buf' \<Rightarrow> zero_fill_loop (i + 1) pad buf'))
      else Inr buf)"
  by pat_completeness auto
termination
  by (relation "measure (\<lambda>(i, pad, buf). nat (pad - i))") auto

declare zero_fill_loop.simps [simp del]

text \<open>
  \<^verbatim>\<open>width\<close> is a Go \<^verbatim>\<open>int\<close>, 32 or 64 bits wide with the target: a word of
  length \<open>'i\<close>. The subtraction \<^verbatim>\<open>width - len(buffer)\<close> wraps around in that width;
  behind it \<^verbatim>\<open>pad\<close> and \<^verbatim>\<open>width\<close> are read as signed values.
\<close>

definition UintToDecimalFixed :: "buffers \<Rightarrow> 64 word \<Rightarrow> 'i::len word \<Rightarrow> panic + (view \<times> buffers)" where
  "UintToDecimalFixed s v width =
     (case UintToDecimal s v of
        Inl p \<Rightarrow> Inl p
      | Inr (buffer, s1) \<Rightarrow>
          (let pad = width - of_nat (view_len buffer)
           in if pad \<le>s 0 then Inr (buffer, s1)
              else
                (let n = length (UintToDecimalBuffer s1)
                 in case slice_of DecBuf n (sint pad) (int n) of
                      Inl p \<Rightarrow> Inl p
                    | Inr dst \<Rightarrow>
                        (let s2 = copy_view s1 dst buffer
                         in case zero_fill_loop 0 (sint pad) (UintToDecimalBuffer s2) of
                              Inl p \<Rightarrow> Inl p
                            | Inr a3 \<Rightarrow>
                                (case slice_of DecBuf (length a3) 0 (sint width) of
                                   Inl p \<Rightarrow> Inl p
                                 | Inr vw \<Rightarrow> Inr (vw, s2\<lparr>UintToDecimalBuffer := a3\<rparr>))))))"

section \<open>Floating point\<close>

text \<open>
  A \<^verbatim>\<open>float64\<close> is its IEEE-754 binary64 bit pattern: sign bit 63, biased exponent
  bits 62 to 52, fraction bits 51 to 0. Every 64-bit word is a value of the type. A
  finite value is \<open>f64_mant x * 2 ^ f64_expo x\<close>, with a signed integer significand.
\<close>

type_synonym float64 = "64 word"

definition f64_sign :: "float64 \<Rightarrow> bool" where
  "f64_sign x = bit x 63"

definition f64_biased :: "float64 \<Rightarrow> int" where
  "f64_biased x = uint (take_bit 11 (drop_bit 52 x))"

definition f64_fraction :: "float64 \<Rightarrow> int" where
  "f64_fraction x = uint (take_bit 52 x)"

definition f64_is_nan :: "float64 \<Rightarrow> bool" where
  "f64_is_nan x = (f64_biased x = 2047 \<and> f64_fraction x \<noteq> 0)"

definition f64_is_inf :: "float64 \<Rightarrow> bool" where
  "f64_is_inf x = (f64_biased x = 2047 \<and> f64_fraction x = 0)"

definition f64_mant :: "float64 \<Rightarrow> int" where
  "f64_mant x =
     (let m = (if f64_biased x = 0 then f64_fraction x else 2 ^ 52 + f64_fraction x)
      in if f64_sign x then - m else m)"

definition f64_expo :: "float64 \<Rightarrow> int" where
  "f64_expo x = max (f64_biased x) 1 - 1075"

text \<open>The value of a finite pattern as a rational number.\<close>

definition f64_value :: "float64 \<Rightarrow> rat" where
  "f64_value x =
     (if f64_expo x \<ge> 0 then of_int (f64_mant x) * 2 ^ nat (f64_expo x)
      else of_int (f64_mant x) / 2 ^ nat (- f64_expo x))"

definition f64_pack :: "bool \<Rightarrow> int \<Rightarrow> float64" where
  "f64_pack sg body = (if sg then push_bit 63 1 else 0) OR word_of_int body"

definition f64_nan :: float64 where
  "f64_nan = 0x7FF8000000000000"

definition f64_inf :: "bool \<Rightarrow> float64" where
  "f64_inf sg = f64_pack sg (2047 * 2 ^ 52)"

function bit_length :: "int \<Rightarrow> int" where
  "bit_length n = (if n \<le> 0 then 0 else 1 + bit_length (n div 2))"
  by pat_completeness auto
termination
  by (relation "measure nat") auto

declare bit_length.simps [simp del]

text \<open>
  Rounding of the exact value \<open>m * 2 ^ e\<close> to the nearest \<^verbatim>\<open>float64\<close>, ties to the
  even significand: the significand keeps 53 bits, or fewer at the smallest exponent
  \<open>-1074\<close> (subnormal results); a result beyond the largest finite value is an
  infinity. \<open>zsign\<close> is the sign of an exact zero result. Exponent and significand are
  packed together, so a significand rounded up to \<open>2 ^ 53\<close> carries into the exponent.
\<close>

definition f64_round :: "bool \<Rightarrow> int \<Rightarrow> int \<Rightarrow> float64" where
  "f64_round zsign m e =
     (if m = 0 then f64_pack zsign 0
      else
        let a = \<bar>m\<bar>;
            e' = max (e + bit_length a - 53) (- 1074);
            q = (if e' \<le> e then a * 2 ^ nat (e - e')
                 else
                   let k = nat (e' - e);
                       d = a div 2 ^ k;
                       r = a mod 2 ^ k;
                       h = 2 ^ (k - 1)
                   in if r > h \<or> (r = h \<and> odd d) then d + 1 else d);
            body = (e' + 1074) * 2 ^ 52 + q
        in if body \<ge> 2047 * 2 ^ 52 then f64_inf (m < 0) else f64_pack (m < 0) body)"

text \<open>
  The arithmetic of the function, each operation rounded on its own (the compiler may
  fuse a multiplication and a subtraction on some targets; the results agree whenever
  the product is exact). A NaN result is the default quiet NaN.
\<close>

definition f64_sub :: "float64 \<Rightarrow> float64 \<Rightarrow> float64" where
  "f64_sub x y =
     (if f64_is_nan x \<or> f64_is_nan y then f64_nan
      else if f64_is_inf x then
        (if f64_is_inf y \<and> f64_sign x = f64_sign y then f64_nan else x)
      else if f64_is_inf y then f64_inf (\<not> f64_sign y)
      else
        let e = min (f64_expo x) (f64_expo y);
            m = f64_mant x * 2 ^ nat (f64_expo x - e) - f64_mant y * 2 ^ nat (f64_expo y - e)
        in f64_round (f64_sign x \<and> \<not> f64_sign y) m e)"

definition f64_mul :: "float64 \<Rightarrow> float64 \<Rightarrow> float64" where
  "f64_mul x y =
     (if f64_is_nan x \<or> f64_is_nan y then f64_nan
      else if f64_is_inf x \<or> f64_is_inf y then
        (if (f64_is_inf x \<and> f64_mant y = 0) \<or> (f64_is_inf y \<and> f64_mant x = 0) then f64_nan
         else f64_inf (f64_sign x \<noteq> f64_sign y))
      else f64_round (f64_sign x \<noteq> f64_sign y) (f64_mant x * f64_mant y) (f64_expo x + f64_expo y))"

text \<open>The conversion of an integer to \<^verbatim>\<open>float64\<close> rounds to nearest.\<close>

definition int_to_f64 :: "int \<Rightarrow> float64" where
  "int_to_f64 k = f64_round False k 0"

text \<open>Truncation towards zero of a finite value; \<open>None\<close> for a NaN or an infinity.\<close>

definition f64_trunc :: "float64 \<Rightarrow> int option" where
  "f64_trunc x =
     (if f64_biased x = 2047 then None
      else
        let m = f64_mant x; e = f64_expo x
        in Some (if e \<ge> 0 then m * 2 ^ nat e else sgn m * (\<bar>m\<bar> div 2 ^ nat (- e))))"

text \<open>
  A conversion of a floating-point value to an integer type truncates towards zero; when
  the target type cannot represent the result, the conversion succeeds with a value that
  depends on the implementation. The record holds these values for the two
  conversions of the function, \<^verbatim>\<open>int64(value)\<close> and \<^verbatim>\<open>int(fracPart)\<close>; the type
  \<open>'i\<close> is the width of \<^verbatim>\<open>int\<close>.
\<close>

record (overloaded) 'i platform =
  unrepresentable_int64 :: "float64 \<Rightarrow> 64 word"
  unrepresentable_int :: "float64 \<Rightarrow> 'i word"

definition f64_to_int64 :: "'i platform \<Rightarrow> float64 \<Rightarrow> 64 word" where
  "f64_to_int64 pf x =
     (case f64_trunc x of
        None \<Rightarrow> unrepresentable_int64 pf x
      | Some t \<Rightarrow>
          if - (2 ^ 63) \<le> t \<and> t < 2 ^ 63 then word_of_int t else unrepresentable_int64 pf x)"

definition f64_to_int :: "'i::len platform \<Rightarrow> float64 \<Rightarrow> 'i word" where
  "f64_to_int pf x =
     (case f64_trunc x of
        None \<Rightarrow> unrepresentable_int pf x
      | Some t \<Rightarrow>
          if - (2 ^ (LENGTH('i) - 1)) \<le> t \<and> t < 2 ^ (LENGTH('i) - 1) then word_of_int t
          else unrepresentable_int pf x)"

section \<open>Float decimal encoder\<close>

definition f64_ten :: float64 where
  "f64_ten = 0x4024000000000000"

text \<open>
  The loop \<^verbatim>\<open>for i := 0; i < precision; i++\<close>. The counter and the cursor \<^verbatim>\<open>idx\<close>
  stay small and are unbounded integers; \<^verbatim>\<open>digit\<close> is an \<^verbatim>\<open>int\<close>, and
  \<^verbatim>\<open>byte('0' + digit)\<close> keeps the low eight bits of the sum.
\<close>

function frac_loop ::
  "'i::len platform \<Rightarrow> int \<Rightarrow> int \<Rightarrow> float64 \<Rightarrow> int \<Rightarrow> byte list \<Rightarrow> panic + (int \<times> byte list)" where
  "frac_loop pf i precision fracPart idx buf =
     (if i < precision then
        (let fracPart1 = f64_mul fracPart f64_ten;
             digit = f64_to_int pf fracPart1
         in case index_set buf idx (ucast (48 + digit)) of
              Inl p \<Rightarrow> Inl p
            | Inr buf' \<Rightarrow>
                frac_loop pf (i + 1) precision (f64_sub fracPart1 (int_to_f64 (sint digit)))
                  (idx + 1) buf')
      else Inr (idx, buf))"
  by pat_completeness auto
termination
  by (relation "measure (\<lambda>(pf, i, precision, fracPart, idx, buf). nat (precision - i))") auto

declare frac_loop.simps [simp del]

definition Float64ToDecimal ::
  "'i::len platform \<Rightarrow> buffers \<Rightarrow> float64 \<Rightarrow> 'i word \<Rightarrow> panic + ((view \<times> ErrorCode) \<times> buffers)" where
  "Float64ToDecimal pf s val precision =
     (let intPart = f64_to_int64 pf val;
          fracPart = f64_sub val (int_to_f64 (sint intPart));
          idx = 0
      in case IntToDecimal s intPart of
           Inl p \<Rightarrow> Inl p
         | Inr (intBuf, s1) \<Rightarrow>
             (let n = length (Float64ToDecimalBuffer s1)
              in case slice_of FloatBuf n idx (int n) of
                   Inl p \<Rightarrow> Inl p
                 | Inr dst \<Rightarrow>
                     (let s2 = copy_view s1 dst intBuf;
                          idx1 = idx + int (view_len intBuf)
                      in case index_set (Float64ToDecimalBuffer s2) idx1 (of_char CHR ''.'') of
                           Inl p \<Rightarrow> Inl p
                         | Inr a3 \<Rightarrow>
                             (let idx2 = idx1 + 1
                              in if int (length a3) - idx2 < sint precision then
                                   Inr ((NilView, ErrorCodeBuffersTooMuchPrecisionDigitsForFloat64),
                                        s2\<lparr>Float64ToDecimalBuffer := a3\<rparr>)
                                 else
                                   (case frac_loop pf 0 (sint precision) fracPart idx2 a3 of
                                      Inl p \<Rightarrow> Inl p
                                    | Inr (idx3, a4) \<Rightarrow>
                                        (case slice_of FloatBuf (length a4) 0 idx3 of
                                           Inl p \<Rightarrow> Inl p
                                         | Inr vw \<Rightarrow>
                                             Inr ((vw, ErrorCodeNil),
                                                  s2\<lparr>Float64ToDecimalBuffer := a4\<rparr>)))))))"

section \<open>Reference functions\<close>

text \<open>
  The statements below compare the encoders with positional notation written the usual
  way, by repeated division, independently of the buffers and loops of the code.
\<close>

definition hex_glyph :: "nat \<Rightarrow> byte" where
  "hex_glyph d = (if d < 10 then of_nat (48 + d) else of_nat (55 + d))"

text \<open>The \<open>n\<close> low hexadecimal digits of \<open>x\<close>, most significant first.\<close>

fun hex_digits :: "nat \<Rightarrow> nat \<Rightarrow> byte list" where
  "hex_digits 0 x = []"
| "hex_digits (Suc n) x = hex_digits n (x div 16) @ [hex_glyph (x mod 16)]"

text \<open>The decimal digits of \<open>x\<close>, most significant first, with a single digit for zero.\<close>

function dec_digits :: "nat \<Rightarrow> byte list" where
  "dec_digits x =
     (if x < 10 then [of_nat (48 + x)] else dec_digits (x div 10) @ [of_nat (48 + x mod 10)])"
  by pat_completeness auto
termination
  by (relation "measure (\<lambda>x. x)") auto

declare dec_digits.simps [simp del]

definition is_digit :: "byte \<Rightarrow> bool" where
  "is_digit b \<longleftrightarrow> 48 \<le> b \<and> b \<le> 57"

text \<open>Reading a digit string back as a number.\<close>

definition dec_value :: "byte list \<Rightarrow> nat" where
  "dec_value bs = foldl (\<lambda>acc b. 10 * acc + (unat b - 48)) 0 bs"

text \<open>
  The bytes \<open>IntToDecimal\<close> is shown below to return: the sign, then the digits of the
  magnitude \<open>m\<close> that the function computes in \<open>int64\<close>, as far as its loop runs.
\<close>

definition int_decimal :: "64 word \<Rightarrow> byte list" where
  "int_decimal v =
     (let m = (if v <s 0 then - v else v)
      in (if v <s 0 then [45] else [])
           @ (if m = 0 then [48] else if 0 <s m then dec_digits (nat (sint m)) else []))"

text \<open>
  The bytes the loop of \<open>Float64ToDecimal\<close> is shown below to write for \<open>n\<close> fractional
  digits, starting from the fractional part \<open>f\<close>.
\<close>

fun frac_bytes :: "'i::len platform \<Rightarrow> nat \<Rightarrow> float64 \<Rightarrow> byte list" where
  "frac_bytes pf 0 f = []"
| "frac_bytes pf (Suc n) f =
     (let f1 = f64_mul f f64_ten;
          digit = f64_to_int pf f1
      in ucast (48 + digit) # frac_bytes pf n (f64_sub f1 (int_to_f64 (sint digit))))"

text \<open>
  An implementation for closed examples: the unrepresentable conversions give the most
  negative integer, as the conversion instruction of amd64 does, where \<open>int\<close> has 64 bits.
\<close>

definition platform64 :: "64 platform" where
  "platform64 =
     \<lparr>unrepresentable_int64 = (\<lambda>x. 0x8000000000000000),
      unrepresentable_int = (\<lambda>x. 0x8000000000000000)\<rparr>"

section \<open>Byte-order codec: round trip and buffer-size errors\<close>

lemma bit_byte_at:
  "bit (push_bit k (ucast (ucast (drop_bit k (v :: 'a::len word)) :: 8 word)) :: 'a word) n
     \<longleftrightarrow> k \<le> n \<and> n < k + 8 \<and> n < LENGTH('a) \<and> bit v n"
  by (auto simp: bit_simps)

lemma bit_byte_low:
  "bit (ucast (ucast (v :: 'a::len word) :: 8 word) :: 'a word) n \<longleftrightarrow> n < 8 \<and> bit v n"
  by (auto simp: bit_simps dest: bit_imp_le_length)

lemma join_bytes16:
  "push_bit 8 (ucast (ucast (drop_bit 8 v) :: 8 word)) OR ucast (ucast v :: 8 word) = (v :: 16 word)"
  apply (rule bit_word_eqI)
  apply (simp only: bit_or_iff bit_byte_at bit_byte_low)
  apply (simp only: len_of_numeral_defs)
  apply auto
  done

lemma join_bytes32:
  "push_bit 24 (ucast (ucast (drop_bit 24 v) :: 8 word))
     OR push_bit 16 (ucast (ucast (drop_bit 16 v) :: 8 word))
     OR push_bit 8 (ucast (ucast (drop_bit 8 v) :: 8 word))
     OR ucast (ucast v :: 8 word) = (v :: 32 word)"
  apply (rule bit_word_eqI)
  apply (simp only: bit_or_iff bit_byte_at bit_byte_low)
  apply (simp only: len_of_numeral_defs)
  apply auto
  done

lemma join_bytes64:
  "push_bit 56 (ucast (ucast (drop_bit 56 v) :: 8 word))
     OR push_bit 48 (ucast (ucast (drop_bit 48 v) :: 8 word))
     OR push_bit 40 (ucast (ucast (drop_bit 40 v) :: 8 word))
     OR push_bit 32 (ucast (ucast (drop_bit 32 v) :: 8 word))
     OR push_bit 24 (ucast (ucast (drop_bit 24 v) :: 8 word))
     OR push_bit 16 (ucast (ucast (drop_bit 16 v) :: 8 word))
     OR push_bit 8 (ucast (ucast (drop_bit 8 v) :: 8 word))
     OR ucast (ucast v :: 8 word) = (v :: 64 word)"
  apply (rule bit_word_eqI)
  apply (simp only: bit_or_iff bit_byte_at bit_byte_low)
  apply (simp only: len_of_numeral_defs)
  apply auto
  done

lemma write2: "2 \<le> length b \<Longrightarrow> b[0 := x0, Suc 0 := x1] = x0 # x1 # drop 2 b"
  by (cases b; simp; case_tac list; simp)

lemma write4:
  "4 \<le> length b \<Longrightarrow> b[0 := x0, Suc 0 := x1, 2 := x2, 3 := x3] = x0 # x1 # x2 # x3 # drop 4 b"
  apply (rule nth_equalityI)
   apply simp
  apply (simp add: nth_list_update nth_append nth_Cons')
  apply auto
  done

lemma write8:
  "8 \<le> length b \<Longrightarrow>
   b[0 := x0, Suc 0 := x1, 2 := x2, 3 := x3, 4 := x4, 5 := x5, 6 := x6, 7 := x7] =
   x0 # x1 # x2 # x3 # x4 # x5 # x6 # x7 # drop 8 b"
  apply (rule nth_equalityI)
   apply simp
  apply (simp add: nth_list_update nth_append nth_Cons')
  apply auto
  done

lemma Uint16ToBytes_eq:
  "Uint16ToBytes v buf =
     (if length buf < 2 then Inr (ErrorCodeBuffersInvalidBufferSize, buf)
      else Inr (ErrorCodeNil, [ucast (drop_bit 8 v), ucast v] @ drop 2 buf))"
  by (simp add: Uint16ToBytes_def BigEndian_PutUint16_def index_get_def write2)

lemma Uint16ToBytesLE_eq:
  "Uint16ToBytesLE v buf =
     (if length buf < 2 then Inr (ErrorCodeBuffersInvalidBufferSize, buf)
      else Inr (ErrorCodeNil, [ucast v, ucast (drop_bit 8 v)] @ drop 2 buf))"
  by (simp add: Uint16ToBytesLE_def LittleEndian_PutUint16_def index_get_def write2)

lemma Uint32ToBytes_eq:
  "Uint32ToBytes v buf =
     (if length buf < 4 then Inr (ErrorCodeBuffersInvalidBufferSize, buf)
      else Inr (ErrorCodeNil,
             [ucast (drop_bit 24 v), ucast (drop_bit 16 v), ucast (drop_bit 8 v), ucast v]
               @ drop 4 buf))"
  by (simp add: Uint32ToBytes_def BigEndian_PutUint32_def index_get_def write4)

lemma Uint32ToBytesLE_eq:
  "Uint32ToBytesLE v buf =
     (if length buf < 4 then Inr (ErrorCodeBuffersInvalidBufferSize, buf)
      else Inr (ErrorCodeNil,
             [ucast v, ucast (drop_bit 8 v), ucast (drop_bit 16 v), ucast (drop_bit 24 v)]
               @ drop 4 buf))"
  by (simp add: Uint32ToBytesLE_def LittleEndian_PutUint32_def index_get_def write4)

lemma Uint64ToBytes_eq:
  "Uint64ToBytes v buf =
     (if length buf < 8 then Inr (ErrorCodeBuffersInvalidBufferSize, buf)
      else Inr (ErrorCodeNil,
             [ucast (drop_bit 56 v), ucast (drop_bit 48 v), ucast (drop_bit 40 v),
              ucast (drop_bit 32 v), ucast (drop_bit 24 v), ucast (drop_bit 16 v),
              ucast (drop_bit 8 v), ucast v] @ drop 8 buf))"
  by (simp add: Uint64ToBytes_def BigEndian_PutUint64_def index_get_def write8)

lemma Uint64ToBytesLE_eq:
  "Uint64ToBytesLE v buf =
     (if length buf < 8 then Inr (ErrorCodeBuffersInvalidBufferSize, buf)
      else Inr (ErrorCodeNil,
             [ucast v, ucast (drop_bit 8 v), ucast (drop_bit 16 v), ucast (drop_bit 24 v),
              ucast (drop_bit 32 v), ucast (drop_bit 40 v), ucast (drop_bit 48 v),
              ucast (drop_bit 56 v)] @ drop 8 buf))"
  by (simp add: Uint64ToBytesLE_def LittleEndian_PutUint64_def index_get_def write8)

lemma roundtrip16:
  "2 \<le> length buf \<Longrightarrow>
   \<exists>b. Uint16ToBytes v buf = Inr (ErrorCodeNil, b) \<and> BytesToUint16 b = (v, ErrorCodeNil)"
  by (simp add: Uint16ToBytes_eq BytesToUint16_def join_bytes16)

lemma roundtrip16LE:
  "2 \<le> length buf \<Longrightarrow>
   \<exists>b. Uint16ToBytesLE v buf = Inr (ErrorCodeNil, b) \<and> BytesToUint16LE b = (v, ErrorCodeNil)"
  by (simp add: Uint16ToBytesLE_eq BytesToUint16LE_def join_bytes16)

lemma roundtrip32:
  "4 \<le> length buf \<Longrightarrow>
   \<exists>b. Uint32ToBytes v buf = Inr (ErrorCodeNil, b) \<and> BytesToUint32 b = (v, ErrorCodeNil)"
  by (simp add: Uint32ToBytes_eq BytesToUint32_def join_bytes32)

lemma roundtrip32LE:
  "4 \<le> length buf \<Longrightarrow>
   \<exists>b. Uint32ToBytesLE v buf = Inr (ErrorCodeNil, b) \<and> BytesToUint32LE b = (v, ErrorCodeNil)"
  by (simp add: Uint32ToBytesLE_eq BytesToUint32LE_def join_bytes32)

lemma roundtrip64:
  "8 \<le> length buf \<Longrightarrow>
   \<exists>b. Uint64ToBytes v buf = Inr (ErrorCodeNil, b) \<and> BytesToUint64 b = (v, ErrorCodeNil)"
  by (simp add: Uint64ToBytes_eq BytesToUint64_def join_bytes64)

lemma roundtrip64LE:
  "8 \<le> length buf \<Longrightarrow>
   \<exists>b. Uint64ToBytesLE v buf = Inr (ErrorCodeNil, b) \<and> BytesToUint64LE b = (v, ErrorCodeNil)"
  by (simp add: Uint64ToBytesLE_eq BytesToUint64LE_def join_bytes64)

text \<open>
  Claim C3. For each width 16, 32 and 64 (values \<open>h\<close>, \<open>w\<close>, \<open>q\<close>) and each byte order, on a buffer of at least
  \<open>W/8\<close> bytes the encoder succeeds and the matching decoder, applied to the buffer the
  encoder leaves, returns the encoded value with the no-error code. The two vectors of
  the specification hold: the big-endian bytes \<open>00 00 01 00\<close> decode to 256, and the
  little-endian encoding of \<open>0x1234\<close> starts with \<open>0x34\<close>, \<open>0x12\<close>.
\<close>

theorem encode_decode_roundtrip:
  "(2 \<le> length buf \<longrightarrow>
      (\<exists>b. Uint16ToBytes h buf = Inr (ErrorCodeNil, b) \<and> BytesToUint16 b = (h, ErrorCodeNil)))
   \<and> (2 \<le> length buf \<longrightarrow>
      (\<exists>b. Uint16ToBytesLE h buf = Inr (ErrorCodeNil, b) \<and> BytesToUint16LE b = (h, ErrorCodeNil)))
   \<and> (4 \<le> length buf \<longrightarrow>
      (\<exists>b. Uint32ToBytes w buf = Inr (ErrorCodeNil, b) \<and> BytesToUint32 b = (w, ErrorCodeNil)))
   \<and> (4 \<le> length buf \<longrightarrow>
      (\<exists>b. Uint32ToBytesLE w buf = Inr (ErrorCodeNil, b) \<and> BytesToUint32LE b = (w, ErrorCodeNil)))
   \<and> (8 \<le> length buf \<longrightarrow>
      (\<exists>b. Uint64ToBytes q buf = Inr (ErrorCodeNil, b) \<and> BytesToUint64 b = (q, ErrorCodeNil)))
   \<and> (8 \<le> length buf \<longrightarrow>
      (\<exists>b. Uint64ToBytesLE q buf = Inr (ErrorCodeNil, b) \<and> BytesToUint64LE b = (q, ErrorCodeNil)))
   \<and> BytesToUint32 [0x00, 0x00, 0x01, 0x00] = (256, ErrorCodeNil)
   \<and> (2 \<le> length buf \<longrightarrow>
      (\<exists>b. Uint16ToBytesLE 0x1234 buf = Inr (ErrorCodeNil, b) \<and> b ! 0 = 0x34 \<and> b ! 1 = 0x12))"
proof -
  have vec1: "BytesToUint32 [0x00, 0x00, 0x01, 0x00] = (256, ErrorCodeNil)"
    by (simp add: BytesToUint32_def)
  have vec2: "2 \<le> length buf \<longrightarrow>
      (\<exists>b. Uint16ToBytesLE 0x1234 buf = Inr (ErrorCodeNil, b) \<and> b ! 0 = 0x34 \<and> b ! 1 = 0x12)"
    by (simp add: Uint16ToBytesLE_eq)
  show ?thesis
    using roundtrip16 [of buf h] roundtrip16LE [of buf h] roundtrip32 [of buf w]
      roundtrip32LE [of buf w] roundtrip64 [of buf q] roundtrip64LE [of buf q] vec1 vec2
    by blast
qed

theorem encode_decode_roundtrip_witness:
  "8 \<le> length [1, 2, 3, 4, 5, 6, 7, 8, 9 :: byte]
   \<and> (\<exists>b. Uint16ToBytes 0xBEEF [1, 2, 3, 4, 5, 6, 7, 8, 9] = Inr (ErrorCodeNil, b)
          \<and> BytesToUint16 b = (0xBEEF, ErrorCodeNil))
   \<and> (\<exists>b. Uint32ToBytesLE 0xDEADBEEF [1, 2, 3, 4, 5, 6, 7, 8, 9] = Inr (ErrorCodeNil, b)
          \<and> BytesToUint32LE b = (0xDEADBEEF, ErrorCodeNil))
   \<and> (\<exists>b. Uint64ToBytes 0x0123456789ABCDEF [1, 2, 3, 4, 5, 6, 7, 8, 9] = Inr (ErrorCodeNil, b)
          \<and> BytesToUint64 b = (0x0123456789ABCDEF, ErrorCodeNil))"
  using encode_decode_roundtrip [where buf = "[1, 2, 3, 4, 5, 6, 7, 8, 9]" and h = "0xBEEF"
      and w = "0xDEADBEEF" and q = "0x0123456789ABCDEF"]
  by simp

text \<open>
  Claim C4. Each encoder and decoder returns \<open>ErrorCodeBuffersInvalidBufferSize\<close> exactly
  when the buffer is shorter than \<open>W/8\<close> bytes. On that error the encoder returns the
  buffer as it was and the decoder returns the value zero. On success the encoder
  returns the no-error code and a buffer whose first \<open>W/8\<close> bytes are the bytes of the
  value in the order of the function, followed by the old bytes from position \<open>W/8\<close> on.
\<close>

theorem buffer_size_contract:
  "Uint16ToBytes h buf =
     (if length buf < 2 then Inr (ErrorCodeBuffersInvalidBufferSize, buf)
      else Inr (ErrorCodeNil, [ucast (drop_bit 8 h), ucast h] @ drop 2 buf))
   \<and> Uint16ToBytesLE h buf =
     (if length buf < 2 then Inr (ErrorCodeBuffersInvalidBufferSize, buf)
      else Inr (ErrorCodeNil, [ucast h, ucast (drop_bit 8 h)] @ drop 2 buf))
   \<and> Uint32ToBytes w buf =
     (if length buf < 4 then Inr (ErrorCodeBuffersInvalidBufferSize, buf)
      else Inr (ErrorCodeNil,
             [ucast (drop_bit 24 w), ucast (drop_bit 16 w), ucast (drop_bit 8 w), ucast w]
               @ drop 4 buf))
   \<and> Uint32ToBytesLE w buf =
     (if length buf < 4 then Inr (ErrorCodeBuffersInvalidBufferSize, buf)
      else Inr (ErrorCodeNil,
             [ucast w, ucast (drop_bit 8 w), ucast (drop_bit 16 w), ucast (drop_bit 24 w)]
               @ drop 4 buf))
   \<and> Uint64ToBytes q buf =
     (if length buf < 8 then Inr (ErrorCodeBuffersInvalidBufferSize, buf)
      else Inr (ErrorCodeNil,
             [ucast (drop_bit 56 q), ucast (drop_bit 48 q), ucast (drop_bit 40 q),
              ucast (drop_bit 32 q), ucast (drop_bit 24 q), ucast (drop_bit 16 q),
              ucast (drop_bit 8 q), ucast q] @ drop 8 buf))
   \<and> Uint64ToBytesLE q buf =
     (if length buf < 8 then Inr (ErrorCodeBuffersInvalidBufferSize, buf)
      else Inr (ErrorCodeNil,
             [ucast q, ucast (drop_bit 8 q), ucast (drop_bit 16 q), ucast (drop_bit 24 q),
              ucast (drop_bit 32 q), ucast (drop_bit 40 q), ucast (drop_bit 48 q),
              ucast (drop_bit 56 q)] @ drop 8 buf))
   \<and> (snd (BytesToUint16 buf) = ErrorCodeBuffersInvalidBufferSize \<longleftrightarrow> length buf < 2)
   \<and> (snd (BytesToUint16LE buf) = ErrorCodeBuffersInvalidBufferSize \<longleftrightarrow> length buf < 2)
   \<and> (snd (BytesToUint32 buf) = ErrorCodeBuffersInvalidBufferSize \<longleftrightarrow> length buf < 4)
   \<and> (snd (BytesToUint32LE buf) = ErrorCodeBuffersInvalidBufferSize \<longleftrightarrow> length buf < 4)
   \<and> (snd (BytesToUint64 buf) = ErrorCodeBuffersInvalidBufferSize \<longleftrightarrow> length buf < 8)
   \<and> (snd (BytesToUint64LE buf) = ErrorCodeBuffersInvalidBufferSize \<longleftrightarrow> length buf < 8)
   \<and> (length buf < 2 \<longrightarrow> fst (BytesToUint16 buf) = 0 \<and> fst (BytesToUint16LE buf) = 0)
   \<and> (length buf < 4 \<longrightarrow> fst (BytesToUint32 buf) = 0 \<and> fst (BytesToUint32LE buf) = 0)
   \<and> (length buf < 8 \<longrightarrow> fst (BytesToUint64 buf) = 0 \<and> fst (BytesToUint64LE buf) = 0)
   \<and> (2 \<le> length buf \<longrightarrow>
        snd (BytesToUint16 buf) = ErrorCodeNil \<and> snd (BytesToUint16LE buf) = ErrorCodeNil)
   \<and> (4 \<le> length buf \<longrightarrow>
        snd (BytesToUint32 buf) = ErrorCodeNil \<and> snd (BytesToUint32LE buf) = ErrorCodeNil)
   \<and> (8 \<le> length buf \<longrightarrow>
        snd (BytesToUint64 buf) = ErrorCodeNil \<and> snd (BytesToUint64LE buf) = ErrorCodeNil)"
proof -
  have dec: "(snd (BytesToUint16 buf) = ErrorCodeBuffersInvalidBufferSize \<longleftrightarrow> length buf < 2)
     \<and> (snd (BytesToUint16LE buf) = ErrorCodeBuffersInvalidBufferSize \<longleftrightarrow> length buf < 2)
     \<and> (snd (BytesToUint32 buf) = ErrorCodeBuffersInvalidBufferSize \<longleftrightarrow> length buf < 4)
     \<and> (snd (BytesToUint32LE buf) = ErrorCodeBuffersInvalidBufferSize \<longleftrightarrow> length buf < 4)
     \<and> (snd (BytesToUint64 buf) = ErrorCodeBuffersInvalidBufferSize \<longleftrightarrow> length buf < 8)
     \<and> (snd (BytesToUint64LE buf) = ErrorCodeBuffersInvalidBufferSize \<longleftrightarrow> length buf < 8)"
    by (simp add: BytesToUint16_def BytesToUint16LE_def BytesToUint32_def BytesToUint32LE_def
        BytesToUint64_def BytesToUint64LE_def)
  have zero: "(length buf < 2 \<longrightarrow> fst (BytesToUint16 buf) = 0 \<and> fst (BytesToUint16LE buf) = 0)
     \<and> (length buf < 4 \<longrightarrow> fst (BytesToUint32 buf) = 0 \<and> fst (BytesToUint32LE buf) = 0)
     \<and> (length buf < 8 \<longrightarrow> fst (BytesToUint64 buf) = 0 \<and> fst (BytesToUint64LE buf) = 0)"
    by (simp add: BytesToUint16_def BytesToUint16LE_def BytesToUint32_def BytesToUint32LE_def
        BytesToUint64_def BytesToUint64LE_def)
  have ok: "(2 \<le> length buf \<longrightarrow>
        snd (BytesToUint16 buf) = ErrorCodeNil \<and> snd (BytesToUint16LE buf) = ErrorCodeNil)
     \<and> (4 \<le> length buf \<longrightarrow>
        snd (BytesToUint32 buf) = ErrorCodeNil \<and> snd (BytesToUint32LE buf) = ErrorCodeNil)
     \<and> (8 \<le> length buf \<longrightarrow>
        snd (BytesToUint64 buf) = ErrorCodeNil \<and> snd (BytesToUint64LE buf) = ErrorCodeNil)"
    by (simp add: BytesToUint16_def BytesToUint16LE_def BytesToUint32_def BytesToUint32LE_def
        BytesToUint64_def BytesToUint64LE_def)
  show ?thesis
    using Uint16ToBytes_eq [of h buf] Uint16ToBytesLE_eq [of h buf] Uint32ToBytes_eq [of w buf]
      Uint32ToBytesLE_eq [of w buf] Uint64ToBytes_eq [of q buf] Uint64ToBytesLE_eq [of q buf]
      dec zero ok
    by blast
qed

theorem buffer_size_contract_witness:
  "length [0xAA, 0xBB, 0xCC :: byte] < 4
   \<and> Uint32ToBytes 0xDEADBEEF [0xAA, 0xBB, 0xCC] =
       Inr (ErrorCodeBuffersInvalidBufferSize, [0xAA, 0xBB, 0xCC])
   \<and> BytesToUint32 [0xAA, 0xBB, 0xCC] = (0, ErrorCodeBuffersInvalidBufferSize)
   \<and> 2 \<le> length [0xAA, 0xBB, 0xCC :: byte]
   \<and> Uint16ToBytes 0xBEEF [0xAA, 0xBB, 0xCC] = Inr (ErrorCodeNil, [0xBE, 0xEF, 0xCC])
   \<and> snd (BytesToUint16 [0xAA, 0xBB, 0xCC]) = ErrorCodeNil"
proof -
  have z: "fst (BytesToUint32 [0xAA, 0xBB, 0xCC]) = 0
      \<and> snd (BytesToUint32 [0xAA, 0xBB, 0xCC]) = ErrorCodeBuffersInvalidBufferSize"
    using buffer_size_contract [where buf = "[0xAA, 0xBB, 0xCC]" and h = "0xBEEF"
        and w = "0xDEADBEEF" and q = 0]
    by simp
  then have "BytesToUint32 [0xAA, 0xBB, 0xCC] = (0, ErrorCodeBuffersInvalidBufferSize)"
    by (simp add: prod_eq_iff)
  then show ?thesis
    using buffer_size_contract [where buf = "[0xAA, 0xBB, 0xCC]" and h = "0xBEEF"
        and w = "0xDEADBEEF" and q = 0]
    by simp
qed

section \<open>Hex encoder: fixed-width digits\<close>

lemma unat_nibble:
  "unat (drop_bit k (v :: 64 word) AND 0x0F) = unat v div 2 ^ k mod 16"
proof -
  have m: "(0x0F :: 64 word) = mask 4"
    by (simp add: mask_eq_exp_minus_1)
  have "unat (drop_bit k v AND mask 4) = unat (take_bit 4 (drop_bit k v))"
    by (simp only: take_bit_eq_mask)
  also have "\<dots> = take_bit 4 (drop_bit k (unat v))"
    by (simp only: unsigned_take_bit_eq unat_drop_bit_eq)
  also have "\<dots> = unat v div 2 ^ k mod 16"
    by (simp add: take_bit_eq_mod drop_bit_eq_div)
  finally show ?thesis by (simp only: m)
qed

lemma uint_nibble:
  "uint (drop_bit k (v :: 64 word) AND 0x0F) = int (unat v div 2 ^ k mod 16)"
  using unat_nibble [of k v] by (simp only: uint_nat)

lemma unat_ucast_up:
  "LENGTH('a::len) \<le> LENGTH('b::len) \<Longrightarrow> unat (ucast (x :: 'a word) :: 'b word) = unat x"
proof -
  assume le: "LENGTH('a) \<le> LENGTH('b)"
  have "unat x < 2 ^ LENGTH('a)" by simp
  also have "(2::nat) ^ LENGTH('a) \<le> 2 ^ LENGTH('b)" using le by simp
  finally have "take_bit LENGTH('b) (unat x) = unat x"
    by (simp add: take_bit_nat_eq_self_iff)
  then show ?thesis by (simp add: unsigned_ucast_eq)
qed

lemma ASCIIHexDigits_nth: "d < 16 \<Longrightarrow> ASCIIHexDigits ! d = hex_glyph d"
proof -
  assume d: "d < 16"
  have "\<forall>x\<in>set [0..<16]. ASCIIHexDigits ! x = hex_glyph x"
    unfolding map_eq_conv [symmetric]
    by (simp add: ASCIIHexDigits_def bytes_def hex_glyph_def upt_rec)
  with d show ?thesis by simp
qed

lemma length_ASCIIHexDigits: "length ASCIIHexDigits = 16"
  by (simp add: ASCIIHexDigits_def bytes_def)

lemma sdiv_four: "4 * int n sdiv 4 = int n"
  by (cases "n = 0") (simp_all add: signed_divide_int_def sgn_mult)

text \<open>One pass of the loop body, for a width of \<open>4 * n\<close> bits.\<close>

lemma hex_body_eq:
  assumes "c < length a"
  shows "hex_body v (4 * int n) a c =
     Inr (if c < n then a[c := hex_glyph (unat v div 16 ^ (n - 1 - c) mod 16)] else a)"
proof (cases "c < n")
  case True
  then have sh: "nat ((int n - 1 - int c) * 4) = 4 * (n - 1 - c)"
    by (simp add: nat_mult_distrib nat_diff_distrib')
  have pw: "(2::nat) ^ (4 * (n - 1 - c)) = 16 ^ (n - 1 - c)"
    by (simp add: power_mult)
  have idx: "UintToHexIndex v (4 * int n) (int c) = int (unat v div 16 ^ (n - 1 - c) mod 16)"
    using True by (simp only: UintToHexIndex_def Let_def sdiv_four uint_nibble sh pw) simp
  have lt: "unat v div 16 ^ (n - 1 - c) mod 16 < 16" by simp
  show ?thesis
    using True assms lt ASCIIHexDigits_nth [OF lt]
    by (simp add: hex_body_def Let_def idx index_get_def index_set_def length_ASCIIHexDigits)
next
  case False
  then have "UintToHexIndex v (4 * int n) (int c) = - 1"
    by (simp add: UintToHexIndex_def sdiv_four)
  then show ?thesis using False by (simp add: hex_body_def)
qed

lemma for_range_hex:
  "\<forall>c \<in> set cs. c < length a \<Longrightarrow>
   for_range (hex_body v (4 * int n)) cs a =
     Inr (foldl (\<lambda>b c. if c < n then b[c := hex_glyph (unat v div 16 ^ (n - 1 - c) mod 16)] else b)
            a cs)"
proof (induction cs arbitrary: a)
  case Nil
  show ?case by simp
next
  case (Cons c cs)
  then show ?case by (simp add: hex_body_eq)
qed

lemma foldl_update_length:
  "length (foldl (\<lambda>b c. if P c then b[c := g c] else b) a cs) = length a"
  by (induction cs arbitrary: a) simp_all

lemma foldl_update_nth:
  "i < length a \<Longrightarrow>
   foldl (\<lambda>b c. if P c then b[c := g c] else b) a cs ! i =
     (if i \<in> set cs \<and> P i then g i else a ! i)"
proof (induction cs arbitrary: a)
  case Nil
  show ?case by simp
next
  case (Cons c cs)
  show ?case
  proof (cases "i = c")
    case True
    then show ?thesis using Cons.prems Cons.IH [of "if P c then a[c := g c] else a"] by simp
  next
    case False
    then show ?thesis using Cons.prems Cons.IH [of "if P c then a[c := g c] else a"] by simp
  qed
qed

lemma hex_digits_length: "length (hex_digits n x) = n"
  by (induction n arbitrary: x) simp_all

lemma hex_digits_nth:
  "p < n \<Longrightarrow> hex_digits n x ! p = hex_glyph (x div 16 ^ (n - 1 - p) mod 16)"
proof (induction n arbitrary: x)
  case 0
  then show ?case by simp
next
  case (Suc n)
  show ?case
  proof (cases "p < n")
    case True
    then have "n - p = Suc (n - 1 - p)" by simp
    then have "x div 16 div 16 ^ (n - 1 - p) = x div 16 ^ (n - p)"
      by (simp add: div_mult2_eq)
    then show ?thesis
      using True Suc.IH [of "x div 16"] by (simp add: nth_append hex_digits_length)
  next
    case False
    with Suc.prems have "p = n" by simp
    then show ?thesis by (simp add: nth_append hex_digits_length)
  qed
qed

lemma hex_loop_result:
  assumes "n \<le> length a"
  shows "foldl (\<lambda>b c. if c < n then b[c := hex_glyph (x div 16 ^ (n - 1 - c) mod 16)] else b)
           a [0..<length a] = hex_digits n x @ drop n a"
proof (rule nth_equalityI)
  show "length (foldl (\<lambda>b c. if c < n then b[c := hex_glyph (x div 16 ^ (n - 1 - c) mod 16)] else b)
           a [0..<length a]) = length (hex_digits n x @ drop n a)"
    using assms by (simp add: foldl_update_length hex_digits_length)
next
  fix i
  assume "i < length (foldl (\<lambda>b c. if c < n then b[c := hex_glyph (x div 16 ^ (n - 1 - c) mod 16)] else b)
           a [0..<length a])"
  then have i: "i < length a" by (simp add: foldl_update_length)
  show "foldl (\<lambda>b c. if c < n then b[c := hex_glyph (x div 16 ^ (n - 1 - c) mod 16)] else b)
           a [0..<length a] ! i = (hex_digits n x @ drop n a) ! i"
    using i assms
    by (simp add: foldl_update_nth nth_append hex_digits_length hex_digits_nth)
qed

lemma hex_encode_eq:
  assumes "length (UintToHexBuffer s) = 16" and "n \<le> 16"
  shows "hex_encode s v (4 * int n) (int n) =
     Inr (View HexBuf 0 n, s\<lparr>UintToHexBuffer := hex_digits n (unat v) @ drop n (UintToHexBuffer s)\<rparr>)"
proof -
  define a where "a = UintToHexBuffer s"
  have la: "length a = 16" using assms by (simp add: a_def)
  have "for_range (hex_body v (4 * int n)) [0..<length a] a =
      Inr (foldl (\<lambda>b c. if c < n then b[c := hex_glyph (unat v div 16 ^ (n - 1 - c) mod 16)] else b)
            a [0..<length a])"
    by (rule for_range_hex) simp
  also have "\<dots> = Inr (hex_digits n (unat v) @ drop n a)"
    using assms(2) la by (intro arg_cong [where f = Inr] hex_loop_result) simp
  finally have "for_range (hex_body v (4 * int n)) [0..<length a] a =
      Inr (hex_digits n (unat v) @ drop n a)" .
  then show ?thesis
    using assms la unfolding hex_encode_def Let_def a_def [symmetric]
    by (simp add: slice_of_def hex_digits_length)
qed

lemma hex_digits_numeral:
  "hex_digits (numeral k) x = hex_digits (pred_numeral k) (x div 16) @ [hex_glyph (x mod 16)]"
proof -
  have "numeral k = Suc (pred_numeral k)" by (rule numeral_eq_Suc)
  then show ?thesis by (simp only: hex_digits.simps)
qed

lemma hex_digits_1: "hex_digits 1 x = [hex_glyph (x mod 16)]"
  by simp

text \<open>
  Claim C5. With the 16-byte hex buffer, each of the four encoders returns the view of
  the first \<open>W/4\<close> bytes of the buffer, and those bytes are the \<open>W/4\<close> hexadecimal digits of
  the value, most significant first, zero digits included; the rest of the buffer keeps
  its bytes. \<open>Uint32ToHex(0xDEADBEEF)\<close> is \<open>DEADBEEF\<close> and \<open>Uint8ToHex(0)\<close> is \<open>00\<close>.
\<close>

theorem hex_encoders_fixed_width:
  assumes "length (UintToHexBuffer s) = 16"
  shows "(\<exists>s'. Uint8ToHex s b = Inr (View HexBuf 0 2, s')
            \<and> view_bytes s' (View HexBuf 0 2) = hex_digits 2 (unat b)
            \<and> s' = s\<lparr>UintToHexBuffer := hex_digits 2 (unat b) @ drop 2 (UintToHexBuffer s)\<rparr>)
     \<and> (\<exists>s'. Uint16ToHex s h = Inr (View HexBuf 0 4, s')
            \<and> view_bytes s' (View HexBuf 0 4) = hex_digits 4 (unat h)
            \<and> s' = s\<lparr>UintToHexBuffer := hex_digits 4 (unat h) @ drop 4 (UintToHexBuffer s)\<rparr>)
     \<and> (\<exists>s'. Uint32ToHex s w = Inr (View HexBuf 0 8, s')
            \<and> view_bytes s' (View HexBuf 0 8) = hex_digits 8 (unat w)
            \<and> s' = s\<lparr>UintToHexBuffer := hex_digits 8 (unat w) @ drop 8 (UintToHexBuffer s)\<rparr>)
     \<and> (\<exists>s'. Uint64ToHex s q = Inr (View HexBuf 0 16, s')
            \<and> view_bytes s' (View HexBuf 0 16) = hex_digits 16 (unat q)
            \<and> s' = s\<lparr>UintToHexBuffer := hex_digits 16 (unat q) @ drop 16 (UintToHexBuffer s)\<rparr>)
     \<and> (\<exists>s'. Uint32ToHex s 0xDEADBEEF = Inr (View HexBuf 0 8, s')
            \<and> view_bytes s' (View HexBuf 0 8) = bytes ''DEADBEEF'')
     \<and> (\<exists>s'. Uint8ToHex s 0 = Inr (View HexBuf 0 2, s')
            \<and> view_bytes s' (View HexBuf 0 2) = bytes ''00'')"
proof -
  have e8: "Uint8ToHex s x =
      Inr (View HexBuf 0 2, s\<lparr>UintToHexBuffer := hex_digits 2 (unat x) @ drop 2 (UintToHexBuffer s)\<rparr>)"
    for x
    using hex_encode_eq [OF assms, of 2 "ucast x"] by (simp add: Uint8ToHex_def unat_ucast_up)
  have e16: "Uint16ToHex s h =
      Inr (View HexBuf 0 4, s\<lparr>UintToHexBuffer := hex_digits 4 (unat h) @ drop 4 (UintToHexBuffer s)\<rparr>)"
    using hex_encode_eq [OF assms, of 4 "ucast h"] by (simp add: Uint16ToHex_def unat_ucast_up)
  have e32: "Uint32ToHex s x =
      Inr (View HexBuf 0 8, s\<lparr>UintToHexBuffer := hex_digits 8 (unat x) @ drop 8 (UintToHexBuffer s)\<rparr>)"
    for x
    using hex_encode_eq [OF assms, of 8 "ucast x"] by (simp add: Uint32ToHex_def unat_ucast_up)
  have e64: "Uint64ToHex s q =
      Inr (View HexBuf 0 16, s\<lparr>UintToHexBuffer := hex_digits 16 (unat q) @ drop 16 (UintToHexBuffer s)\<rparr>)"
    using hex_encode_eq [OF assms, of 16 q] by (simp add: Uint64ToHex_def)
  have v: "view_bytes (s\<lparr>UintToHexBuffer := hex_digits n x @ rest\<rparr>) (View HexBuf 0 n) = hex_digits n x"
    for n x rest
    by (simp add: hex_digits_length)
  have d1: "hex_digits 8 (unat (0xDEADBEEF :: 32 word)) = bytes ''DEADBEEF''"
    by (simp add: hex_digits_numeral hex_glyph_def bytes_def)
  have d2: "hex_digits 2 (unat (0 :: 8 word)) = bytes ''00''"
    by (simp add: hex_digits_numeral hex_glyph_def bytes_def)
  have c1: "\<exists>s'. Uint8ToHex s b = Inr (View HexBuf 0 2, s')
            \<and> view_bytes s' (View HexBuf 0 2) = hex_digits 2 (unat b)
            \<and> s' = s\<lparr>UintToHexBuffer := hex_digits 2 (unat b) @ drop 2 (UintToHexBuffer s)\<rparr>"
    unfolding e8 using v by blast
  have c2: "\<exists>s'. Uint16ToHex s h = Inr (View HexBuf 0 4, s')
            \<and> view_bytes s' (View HexBuf 0 4) = hex_digits 4 (unat h)
            \<and> s' = s\<lparr>UintToHexBuffer := hex_digits 4 (unat h) @ drop 4 (UintToHexBuffer s)\<rparr>"
    unfolding e16 using v by blast
  have c3: "\<exists>s'. Uint32ToHex s w = Inr (View HexBuf 0 8, s')
            \<and> view_bytes s' (View HexBuf 0 8) = hex_digits 8 (unat w)
            \<and> s' = s\<lparr>UintToHexBuffer := hex_digits 8 (unat w) @ drop 8 (UintToHexBuffer s)\<rparr>"
    unfolding e32 using v by blast
  have c4: "\<exists>s'. Uint64ToHex s q = Inr (View HexBuf 0 16, s')
            \<and> view_bytes s' (View HexBuf 0 16) = hex_digits 16 (unat q)
            \<and> s' = s\<lparr>UintToHexBuffer := hex_digits 16 (unat q) @ drop 16 (UintToHexBuffer s)\<rparr>"
    unfolding e64 using v by blast
  have c5: "\<exists>s'. Uint32ToHex s 0xDEADBEEF = Inr (View HexBuf 0 8, s')
            \<and> view_bytes s' (View HexBuf 0 8) = bytes ''DEADBEEF''"
    unfolding e32 d1 [symmetric] using v by blast
  have c6: "\<exists>s'. Uint8ToHex s 0 = Inr (View HexBuf 0 2, s')
            \<and> view_bytes s' (View HexBuf 0 2) = bytes ''00''"
    unfolding e8 d2 [symmetric] using v by blast
  show ?thesis
    using c1 c2 c3 c4 c5 c6 by (intro conjI)
qed

theorem hex_encoders_fixed_width_witness:
  "length (UintToHexBuffer initial_buffers) = 16
   \<and> (\<exists>s'. Uint16ToHex initial_buffers 0x0A5F = Inr (View HexBuf 0 4, s')
          \<and> view_bytes s' (View HexBuf 0 4) = bytes ''0A5F'')
   \<and> (\<exists>s'. Uint64ToHex initial_buffers 0x0123456789ABCDEF = Inr (View HexBuf 0 16, s')
          \<and> view_bytes s' (View HexBuf 0 16) = bytes ''0123456789ABCDEF'')"
proof -
  have len: "length (UintToHexBuffer initial_buffers) = 16"
    by (simp add: initial_buffers_def)
  have d1: "hex_digits 4 (unat (0x0A5F :: 16 word)) = bytes ''0A5F''"
    by (simp add: hex_digits_numeral hex_glyph_def bytes_def)
  have d2: "hex_digits 16 (unat (0x0123456789ABCDEF :: 64 word)) = bytes ''0123456789ABCDEF''"
    by (simp add: hex_digits_numeral hex_glyph_def bytes_def)
  have "\<exists>s'. Uint16ToHex initial_buffers 0x0A5F = Inr (View HexBuf 0 4, s')
          \<and> view_bytes s' (View HexBuf 0 4) = bytes ''0A5F''"
    using hex_encoders_fixed_width [OF len, where h = "0x0A5F"] unfolding d1 by blast
  moreover have "\<exists>s'. Uint64ToHex initial_buffers 0x0123456789ABCDEF = Inr (View HexBuf 0 16, s')
          \<and> view_bytes s' (View HexBuf 0 16) = bytes ''0123456789ABCDEF''"
    using hex_encoders_fixed_width [OF len, where q = "0x0123456789ABCDEF"] unfolding d2 by blast
  ultimately show ?thesis using len by blast
qed

section \<open>Decimal digits\<close>

lemmas dec_digits_numeral = dec_digits.simps [of "numeral k" for k]

lemma dec_digits_0: "dec_digits 0 = [48]"
  by (simp add: dec_digits.simps)

lemma dec_digits_1: "dec_digits (Suc 0) = [49]"
  by (simp add: dec_digits.simps)

lemma dec_digits_small: "x < 10 \<Longrightarrow> dec_digits x = [of_nat (48 + x)]"
  by (simp add: dec_digits.simps)

lemma dec_digits_large:
  "10 \<le> x \<Longrightarrow> dec_digits x = dec_digits (x div 10) @ [of_nat (48 + x mod 10)]"
  by (subst dec_digits.simps) simp

lemma dec_digits_nonempty: "dec_digits x \<noteq> []"
  by (subst dec_digits.simps) simp

lemma unat_digit_byte: "d < 10 \<Longrightarrow> unat (48 + of_nat d :: byte) = 48 + d"
proof -
  assume d: "d < 10"
  have "unat (of_nat (48 + d) :: byte) = (48 + d) mod 2 ^ LENGTH(8)"
    by (rule unat_of_nat)
  also have "\<dots> = 48 + d" using d by simp
  finally show ?thesis by simp
qed

lemma digit_byte_is_digit: "d < 10 \<Longrightarrow> is_digit (48 + of_nat d)"
  using unat_digit_byte [of d] by (simp add: is_digit_def word_le_nat_alt)

lemma dec_digits_are_digits: "b \<in> set (dec_digits x) \<Longrightarrow> is_digit b"
proof (induction x arbitrary: b rule: dec_digits.induct)
  case (1 x)
  show ?case
  proof (cases "x < 10")
    case True
    with "1.prems" show ?thesis by (auto simp: dec_digits_small digit_byte_is_digit)
  next
    case False
    with "1.prems" "1.IH" show ?thesis
      by (auto simp: dec_digits_large digit_byte_is_digit)
  qed
qed

lemma dec_value_snoc: "dec_value (bs @ [b]) = 10 * dec_value bs + (unat b - 48)"
  by (simp add: dec_value_def)

lemma dec_value_dec_digits: "dec_value (dec_digits x) = x"
proof (induction x rule: dec_digits.induct)
  case (1 x)
  show ?case
  proof (cases "x < 10")
    case True
    then show ?thesis by (simp add: dec_digits_small dec_value_def unat_digit_byte)
  next
    case False
    then show ?thesis
      using "1.IH" by (simp add: dec_digits_large dec_value_snoc unat_digit_byte)
  qed
qed

lemma dec_digits_no_leading_zero: "x \<noteq> 0 \<Longrightarrow> hd (dec_digits x) \<noteq> 48"
proof (induction x rule: dec_digits.induct)
  case (1 x)
  show ?case
  proof (cases "x < 10")
    case True
    have "unat (48 + of_nat x :: byte) \<noteq> unat (48 :: byte)"
      using True "1.prems" by (simp add: unat_digit_byte)
    then have "(48 + of_nat x :: byte) \<noteq> 48" by auto
    with True show ?thesis by (simp add: dec_digits_small)
  next
    case False
    then have "x div 10 \<noteq> 0" by simp
    with False "1.IH" show ?thesis
      by (simp add: dec_digits_large dec_digits_nonempty)
  qed
qed

lemma dec_digits_length_le: "0 < k \<Longrightarrow> x < 10 ^ k \<Longrightarrow> length (dec_digits x) \<le> k"
proof (induction x arbitrary: k rule: dec_digits.induct)
  case (1 x)
  show ?case
  proof (cases "x < 10")
    case True
    with "1.prems" show ?thesis by (simp add: dec_digits_small)
  next
    case False
    with "1.prems" have k: "1 < k"
      by (cases "k = 1") auto
    then obtain j where j: "k = Suc j" "0 < j" by (cases k) auto
    with "1.prems" have "x div 10 < 10 ^ j"
      by (simp add: less_mult_imp_div_less mult.commute)
    with False j "1.IH" [of j] show ?thesis
      by (simp add: dec_digits_large)
  qed
qed

lemma dec_digits_word_length: "length (dec_digits (unat (v :: 64 word))) \<le> 20"
proof -
  have "unat v < 2 ^ 64" using unsigned_less [of v] by simp
  also have "(2::nat) ^ 64 < 10 ^ 20" by simp
  finally show ?thesis by (intro dec_digits_length_le) simp_all
qed

section \<open>Unsigned decimal encoder\<close>

lemma length_ASCIIDecimalDigits: "length ASCIIDecimalDigits = 10"
  by (simp add: ASCIIDecimalDigits_def bytes_def)

lemma ASCIIDecimalDigits_nth: "d < 10 \<Longrightarrow> ASCIIDecimalDigits ! d = of_nat (48 + d)"
proof -
  assume d: "d < 10"
  have "\<forall>x\<in>set [0..<10]. ASCIIDecimalDigits ! x = of_nat (48 + x)"
    unfolding map_eq_conv [symmetric]
    by (simp add: ASCIIDecimalDigits_def bytes_def upt_rec)
  with d show ?thesis by simp
qed

lemma digit_glyph: "d < 10 \<Longrightarrow> index_get ASCIIDecimalDigits (int d) = Inr (of_nat (48 + d))"
  by (simp add: index_get_def length_ASCIIDecimalDigits ASCIIDecimalDigits_nth)

lemma zero_glyph: "index_get ASCIIDecimalDigits 0 = Inr 48"
  using digit_glyph [of 0] by simp

text \<open>
  Writing a string of digits from the right: with room for all of them below the
  cursor, the loop leaves the digits just before the cursor position.
\<close>

lemma write_before:
  assumes "Suc j \<le> length buf"
  shows "buf[j := g] = take j buf @ g # drop (Suc j) buf"
  using assms by (simp add: upd_conv_take_nth_drop)

lemma uint_digits_loop_step:
  assumes "v \<noteq> 0" and "0 < k" and "k \<le> length buf"
  shows "uint_digits_loop v (int k) buf =
     uint_digits_loop (v div 10) (int (k - 1)) (buf[k - 1 := 48 + of_nat (unat v mod 10)])"
proof -
  have ik: "int k - 1 = int (k - 1)" using assms by simp
  have rem: "uint (v mod 10) = int (unat v mod 10)"
    by (simp add: uint_nat unat_mod)
  have glyph: "index_get ASCIIDecimalDigits (uint (v mod 10)) = Inr (48 + of_nat (unat v mod 10))"
    using digit_glyph [of "unat v mod 10"] by (simp add: rem)
  have store: "index_set buf (int k - 1) g = Inr (buf[k - 1 := g])" for g
    using assms by (simp add: index_set_def nat_diff_distrib')
  have "uint_digits_loop v (int k) buf =
     uint_digits_loop (v div 10) (int k - 1) (buf[k - 1 := 48 + of_nat (unat v mod 10)])"
    using assms
    by (subst uint_digits_loop.simps) (simp add: glyph store word_gt_0)
  then show ?thesis by (simp only: ik)
qed

lemma uint_digits_loop_zero: "uint_digits_loop 0 i buf = Inr (i, buf)"
  by (subst uint_digits_loop.simps) simp

lemma uint_digits_loop_eq:
  "x = unat v \<Longrightarrow> v \<noteq> 0 \<Longrightarrow> length (dec_digits x) \<le> k \<Longrightarrow> k \<le> length buf \<Longrightarrow>
   uint_digits_loop v (int k) buf =
     Inr (int (k - length (dec_digits x)), take (k - length (dec_digits x)) buf @ dec_digits x @ drop k buf)"
proof (induction x arbitrary: v k buf rule: dec_digits.induct)
  case (1 x)
  let ?g = "48 + of_nat (x mod 10) :: byte"
  let ?buf = "buf[k - 1 := ?g]"
  from "1.prems" dec_digits_nonempty [of x] have k: "0 < k"
    by (cases "dec_digits x") auto
  have quo: "unat (v div 10) = x div 10"
    using "1.prems" by (simp add: unat_div)
  have step: "uint_digits_loop v (int k) buf = uint_digits_loop (v div 10) (int (k - 1)) ?buf"
    using uint_digits_loop_step [of v k buf] "1.prems" k by simp
  have upd: "?buf = take (k - 1) buf @ ?g # drop k buf"
    using write_before [of "k - 1" buf ?g] k "1.prems" by simp
  show ?case
  proof (cases "x < 10")
    case True
    then have "unat (v div 10) = 0" using quo by simp
    then have "v div 10 = 0" by (simp only: unat_0_iff)
    then have "uint_digits_loop (v div 10) (int (k - 1)) ?buf = Inr (int (k - 1), ?buf)"
      by (simp only: uint_digits_loop_zero)
    moreover have "dec_digits x = [?g]"
      using True by (simp add: dec_digits_small)
    ultimately show ?thesis
      using step upd by simp
  next
    case False
    then have "unat (v div 10) \<noteq> 0" using quo by simp
    then have nz: "v div 10 \<noteq> 0" by auto
    have dd: "dec_digits x = dec_digits (x div 10) @ [?g]"
      using False by (simp add: dec_digits_large)
    then have len: "length (dec_digits (x div 10)) \<le> k - 1"
      using "1.prems" by simp
    have "uint_digits_loop (v div 10) (int (k - 1)) ?buf =
        Inr (int (k - 1 - length (dec_digits (x div 10))),
             take (k - 1 - length (dec_digits (x div 10))) ?buf
               @ dec_digits (x div 10) @ drop (k - 1) ?buf)"
      using False "1.prems" len nz quo by (intro "1.IH") simp_all
    moreover have "take (k - 1 - length (dec_digits (x div 10))) ?buf =
        take (k - length (dec_digits x)) buf"
      using dd by simp
    moreover have "drop (k - 1) ?buf = ?g # drop k buf"
      by (subst upd) (use k "1.prems" in simp)
    ultimately show ?thesis
      using step dd by simp
  qed
qed

lemma UintToDecimal_eq:
  assumes "length (UintToDecimalBuffer s) = 20"
  shows "UintToDecimal s v =
     Inr (View DecBuf (20 - length (dec_digits (unat v))) 20,
          s\<lparr>UintToDecimalBuffer :=
              take (20 - length (dec_digits (unat v))) (UintToDecimalBuffer s) @ dec_digits (unat v)\<rparr>)"
proof (cases "v = 0")
  case True
  have "(UintToDecimalBuffer s)[19 := 48] = take 19 (UintToDecimalBuffer s) @ [48]"
    using write_before [of 19 "UintToDecimalBuffer s" 48] assms by simp
  moreover have "UintToDecimalBuffer s \<noteq> []"
    using assms by auto
  ultimately show ?thesis
    using True assms
    by (simp add: UintToDecimal_def Let_def zero_glyph index_set_def uint_digits_loop_zero
        slice_of_def dec_digits_0)
next
  case False
  have len: "length (dec_digits (unat v)) \<le> 20" by (rule dec_digits_word_length)
  have "uint_digits_loop v (int 20) (UintToDecimalBuffer s) =
      Inr (int (20 - length (dec_digits (unat v))),
           take (20 - length (dec_digits (unat v))) (UintToDecimalBuffer s) @ dec_digits (unat v)
             @ drop 20 (UintToDecimalBuffer s))"
    using False len assms by (intro uint_digits_loop_eq) simp_all
  then show ?thesis
    using False assms len
    by (simp add: UintToDecimal_def Let_def slice_of_def)
qed

text \<open>
  Claim C7. With the 20-byte decimal buffer, \<open>UintToDecimal\<close> returns a view of the
  decimal digits of the value: the bytes are digits, they read back as the value, the
  first one is not \<open>0\<close> unless the value is zero, and for zero the view is the single
  byte \<open>0\<close>. The view ends at the end of the buffer and the bytes before it are kept.
\<close>

theorem UintToDecimal_minimal:
  assumes "length (UintToDecimalBuffer s) = 20"
  shows "\<exists>vw s'. UintToDecimal s v = Inr (vw, s')
           \<and> view_bytes s' vw = dec_digits (unat v)
           \<and> view_bytes s' vw \<noteq> []
           \<and> (\<forall>b \<in> set (view_bytes s' vw). is_digit b)
           \<and> dec_value (view_bytes s' vw) = unat v
           \<and> (hd (view_bytes s' vw) = 48 \<longrightarrow> v = 0)
           \<and> (v = 0 \<longrightarrow> view_bytes s' vw = bytes ''0'')"
proof -
  let ?ds = "dec_digits (unat v)"
  let ?vw = "View DecBuf (20 - length ?ds) 20"
  let ?s' = "s\<lparr>UintToDecimalBuffer := take (20 - length ?ds) (UintToDecimalBuffer s) @ ?ds\<rparr>"
  have len: "length ?ds \<le> 20" by (rule dec_digits_word_length)
  have run: "UintToDecimal s v = Inr (?vw, ?s')"
    by (rule UintToDecimal_eq [OF assms])
  have bytes: "view_bytes ?s' ?vw = ?ds"
    using assms len by simp
  have lead: "hd ?ds = 48 \<longrightarrow> v = 0"
    using dec_digits_no_leading_zero [of "unat v"] by (auto simp: unat_0_iff)
  have zero: "v = 0 \<longrightarrow> ?ds = bytes ''0''"
    by (simp add: dec_digits_0 bytes_def)
  have props: "?ds = ?ds \<and> ?ds \<noteq> [] \<and> (\<forall>b \<in> set ?ds. is_digit b) \<and> dec_value ?ds = unat v
      \<and> (hd ?ds = 48 \<longrightarrow> v = 0) \<and> (v = 0 \<longrightarrow> ?ds = bytes ''0'')"
    using lead zero dec_digits_nonempty [of "unat v"] dec_digits_are_digits [of _ "unat v"]
      dec_value_dec_digits [of "unat v"]
    by blast
  have "UintToDecimal s v = Inr (?vw, ?s')
           \<and> view_bytes ?s' ?vw = dec_digits (unat v)
           \<and> view_bytes ?s' ?vw \<noteq> []
           \<and> (\<forall>b \<in> set (view_bytes ?s' ?vw). is_digit b)
           \<and> dec_value (view_bytes ?s' ?vw) = unat v
           \<and> (hd (view_bytes ?s' ?vw) = 48 \<longrightarrow> v = 0)
           \<and> (v = 0 \<longrightarrow> view_bytes ?s' ?vw = bytes ''0'')"
    unfolding bytes using run props by (intro conjI) blast+
  then show ?thesis by blast
qed

theorem UintToDecimal_minimal_witness:
  "length (UintToDecimalBuffer initial_buffers) = 20
   \<and> (\<exists>vw s'. UintToDecimal initial_buffers 18446744073709551615 = Inr (vw, s')
          \<and> view_bytes s' vw = bytes ''18446744073709551615''
          \<and> dec_value (view_bytes s' vw) = 18446744073709551615)"
proof -
  have len: "length (UintToDecimalBuffer initial_buffers) = 20"
    by (simp add: initial_buffers_def)
  have d: "dec_digits 18446744073709551615 = bytes ''18446744073709551615''"
    by (simp add: dec_digits_numeral dec_digits_1 bytes_def)
  have u: "unat (18446744073709551615 :: 64 word) = 18446744073709551615"
    by simp
  show ?thesis
    using UintToDecimal_minimal [OF len, of 18446744073709551615] len unfolding u d by blast
qed

section \<open>Fixed-width decimal encoder\<close>

lemma zero_fill_loop_eq:
  "i \<le> p \<Longrightarrow> p \<le> length buf \<Longrightarrow>
   zero_fill_loop (int i) (int p) buf = Inr (take i buf @ replicate (p - i) 48 @ drop p buf)"
proof (induction "p - i" arbitrary: i buf)
  case 0
  then show ?case by (subst zero_fill_loop.simps) simp
next
  case (Suc d)
  then have lt: "i < p" by simp
  have store: "index_set buf (int i) 48 = Inr (buf[i := 48])"
    using lt Suc.prems by (simp add: index_set_def)
  have step: "zero_fill_loop (int i) (int p) buf = zero_fill_loop (int (Suc i)) (int p) (buf[i := 48])"
    using lt by (subst zero_fill_loop.simps) (simp add: zero_glyph store add.commute)
  have "zero_fill_loop (int (Suc i)) (int p) (buf[i := 48]) =
      Inr (take (Suc i) (buf[i := 48]) @ replicate (p - Suc i) 48 @ drop p (buf[i := 48]))"
    using Suc.hyps(2) Suc.prems lt by (intro Suc.hyps(1)) simp_all
  moreover have "take (Suc i) (buf[i := 48]) = take i buf @ [48]"
    using lt Suc.prems by (simp add: take_Suc_conv_app_nth)
  moreover have "drop p (buf[i := 48]) = drop p buf"
    using lt by simp
  moreover have "replicate (p - i) (48 :: byte) = 48 # replicate (p - Suc i) 48"
    using lt by (simp add: Suc_diff_Suc flip: replicate_Suc)
  ultimately show ?case
    using step by simp
qed

text \<open>The subtraction \<open>width - len(buffer)\<close> when it does not wrap around.\<close>

lemma sint_sub_length:
  fixes width :: "'i::len word"
  assumes "- (2 ^ (LENGTH('i) - 1)) \<le> sint width - int n"
  shows "sint (width - of_nat n) = sint width - int n"
proof -
  have "sint width < 2 ^ (LENGTH('i) - 1)"
    using sint_less [of width] by simp
  then have up: "sint width - int n < 2 ^ (LENGTH('i) - 1)" by simp
  have "width - of_nat n = word_of_int (sint width - int n)" by simp
  then have "sint (width - of_nat n) = signed_take_bit (LENGTH('i) - 1) (sint width - int n)"
    by (simp only: sint_sbintrunc')
  also have "\<dots> = sint width - int n"
    using assms up by (rule signed_take_bit_int_eq_self)
  finally show ?thesis .
qed

lemma int_min_bound:
  assumes "32 \<le> LENGTH('i::len)"
  shows "(2::int) ^ 31 \<le> 2 ^ (LENGTH('i) - 1)"
  using assms by (intro power_increasing) simp_all

text \<open>The same subtraction when it wraps around below the most negative \<open>int\<close>.\<close>

lemma sint_sub_length_wrapped:
  fixes width :: "'i::len word"
  assumes "sint width - int n < - (2 ^ (LENGTH('i) - 1))"
  shows "sint width - int n + 2 ^ LENGTH('i) \<le> sint (width - of_nat n)"
proof -
  have "width - of_nat n = word_of_int (sint width - int n)" by simp
  then have "sint (width - of_nat n) = signed_take_bit (LENGTH('i) - 1) (sint width - int n)"
    by (simp only: sint_sbintrunc')
  moreover have "sint width - int n + 2 ^ Suc (LENGTH('i) - 1)
      \<le> signed_take_bit (LENGTH('i) - 1) (sint width - int n)"
    using assms by (rule signed_take_bit_int_greater_eq)
  ultimately show ?thesis by simp
qed

text \<open>The two paths of \<open>UintToDecimalFixed\<close>, with the intermediate results named.\<close>

lemma UintToDecimalFixed_unpadded:
  assumes "UintToDecimal s v = Inr (buffer, s1)"
    and "width - of_nat (view_len buffer) \<le>s 0"
  shows "UintToDecimalFixed s v width = Inr (buffer, s1)"
  using assms by (simp add: UintToDecimalFixed_def)

lemma UintToDecimalFixed_padded:
  assumes "UintToDecimal s v = Inr (buffer, s1)"
    and "\<not> width - of_nat (view_len buffer) \<le>s 0"
    and "sint (width - of_nat (view_len buffer)) = pad"
    and "slice_of DecBuf (length (UintToDecimalBuffer s1)) pad
           (int (length (UintToDecimalBuffer s1))) = Inr dst"
    and "copy_view s1 dst buffer = s2"
    and "zero_fill_loop 0 pad (UintToDecimalBuffer s2) = Inr a3"
  shows "UintToDecimalFixed s v width =
     (case slice_of DecBuf (length a3) 0 (sint width) of
        Inl e \<Rightarrow> Inl e
      | Inr vw \<Rightarrow> Inr (vw, s2\<lparr>UintToDecimalBuffer := a3\<rparr>))"
  using assms by (simp add: UintToDecimalFixed_def Let_def)

lemma UintToDecimalFixed_bad_slice:
  assumes "UintToDecimal s v = Inr (buffer, s1)"
    and "\<not> width - of_nat (view_len buffer) \<le>s 0"
    and "sint (width - of_nat (view_len buffer)) = pad"
    and "slice_of DecBuf (length (UintToDecimalBuffer s1)) pad
           (int (length (UintToDecimalBuffer s1))) = Inl e"
  shows "UintToDecimalFixed s v width = Inl e"
  using assms by (simp add: UintToDecimalFixed_def Let_def)

lemma copy_view_decimal:
  assumes "length a1 = 20" and "length ds = n" and "n \<le> 20" and "p + m \<le> 20" and "m \<le> n"
    and "m = min (20 - p) n"
  shows "copy_view (s\<lparr>UintToDecimalBuffer := a1\<rparr>) (View DecBuf p 20) (View DecBuf (20 - n) 20) =
     s\<lparr>UintToDecimalBuffer := take p a1 @ take m (drop (20 - n) a1) @ drop (p + m) a1\<rparr>"
  using assms by (simp add: Let_def)

text \<open>
  The encoder on the widths the 20-byte buffer can hold, as long as the subtraction
  does not wrap: at most the natural length gives the result of \<open>UintToDecimal\<close>, a
  larger width gives the zero-padded digits at the start of the buffer.
\<close>

lemma UintToDecimalFixed_eq:
  fixes width :: "'i::len word"
  assumes len: "length (UintToDecimalBuffer s) = 20"
    and lo: "- (2 ^ (LENGTH('i) - 1)) \<le> sint width - int (length (dec_digits (unat v)))"
    and hi: "sint width \<le> 20"
  shows "UintToDecimalFixed s v width =
     (if sint width \<le> int (length (dec_digits (unat v))) then UintToDecimal s v
      else Inr (View DecBuf 0 (nat (sint width)),
             s\<lparr>UintToDecimalBuffer :=
                 replicate (nat (sint width) - length (dec_digits (unat v))) 48 @ dec_digits (unat v)
                   @ drop (nat (sint width))
                       (take (20 - length (dec_digits (unat v))) (UintToDecimalBuffer s)
                          @ dec_digits (unat v))\<rparr>))"
proof -
  define ds where "ds = dec_digits (unat v)"
  define L where "L = length ds"
  define a1 where "a1 = take (20 - L) (UintToDecimalBuffer s) @ ds"
  define s1 where "s1 = s\<lparr>UintToDecimalBuffer := a1\<rparr>"
  have L: "L \<le> 20" "length ds = L"
    using dec_digits_word_length [of v] by (simp_all add: L_def ds_def)
  have run: "UintToDecimal s v = Inr (View DecBuf (20 - L) 20, s1)"
    using UintToDecimal_eq [OF len, of v] by (simp only: s1_def a1_def L_def ds_def)
  have vl: "view_len (View DecBuf (20 - L) 20) = L"
    using L by simp
  have pad: "sint (width - of_nat L) = sint width - int L"
    using lo by (intro sint_sub_length) (simp add: L_def ds_def)
  have la1: "length a1 = 20" using len L by (simp add: a1_def)
  have s1a: "UintToDecimalBuffer s1 = a1" by (simp add: s1_def)
  show ?thesis
  proof (cases "sint width \<le> int L")
    case True
    then have "width - of_nat (view_len (View DecBuf (20 - L) 20)) \<le>s 0"
      unfolding vl by (simp add: word_sle_eq pad)
    then have "UintToDecimalFixed s v width = Inr (View DecBuf (20 - L) 20, s1)"
      by (rule UintToDecimalFixed_unpadded [OF run])
    then show ?thesis
      using True run unfolding L_def ds_def by (simp only: if_True)
  next
    case False
    define W where "W = nat (sint width)"
    define p where "p = W - L"
    have W: "sint width = int W" "L < W" "W \<le> 20" "p + L = W" "p \<le> 20" "0 < p"
      using False hi by (simp_all add: W_def p_def)
    have notle: "\<not> width - of_nat (view_len (View DecBuf (20 - L) 20)) \<le>s 0"
      unfolding vl using False by (simp add: word_sle_eq pad)
    have ip: "sint (width - of_nat (view_len (View DecBuf (20 - L) 20))) = int p"
      unfolding vl pad using W(2) by (simp add: p_def W(1))
    have sl: "slice_of DecBuf (length (UintToDecimalBuffer s1)) (int p)
        (int (length (UintToDecimalBuffer s1))) = Inr (View DecBuf p 20)"
      unfolding s1a la1 using W(5) by (simp add: slice_of_def)
    have tk: "take L (drop (20 - L) a1) = ds"
      using len L by (simp add: a1_def)
    have mn: "L = min (20 - p) L" using W(3,4) by linarith
    have pl: "p + L \<le> 20" using W(3,4) by linarith
    have cp: "copy_view s1 (View DecBuf p 20) (View DecBuf (20 - L) 20) =
        s\<lparr>UintToDecimalBuffer := take p a1 @ ds @ drop W a1\<rparr>"
      using copy_view_decimal [OF la1 L(2) L(1) pl order_refl mn, of s]
      unfolding tk s1_def W(4) .
    have l2: "length (take p a1 @ ds @ drop W a1) = 20"
      using W(3,4,5) L by (simp add: la1)
    have fill: "zero_fill_loop 0 (int p)
        (UintToDecimalBuffer (s\<lparr>UintToDecimalBuffer := take p a1 @ ds @ drop W a1\<rparr>)) =
        Inr (replicate p 48 @ ds @ drop W a1)"
    proof -
      have "zero_fill_loop (int 0) (int p) (take p a1 @ ds @ drop W a1) =
          Inr (take 0 (take p a1 @ ds @ drop W a1) @ replicate (p - 0) 48
                 @ drop p (take p a1 @ ds @ drop W a1))"
        by (rule zero_fill_loop_eq, simp, simp only: l2 W(5))
      moreover have "drop p (take p a1 @ ds @ drop W a1) = ds @ drop W a1"
        using W(5) by (simp add: la1)
      ultimately show ?thesis by simp
    qed
    have fin: "slice_of DecBuf (length (replicate p (48 :: byte) @ ds @ drop W a1)) 0 (sint width) =
        Inr (View DecBuf 0 W)"
      using W(3,4) L by (simp add: slice_of_def la1 W(1))
    have "UintToDecimalFixed s v width =
        (case slice_of DecBuf (length (replicate p (48 :: byte) @ ds @ drop W a1)) 0 (sint width) of
           Inl e \<Rightarrow> Inl e
         | Inr vw \<Rightarrow>
             Inr (vw, s\<lparr>UintToDecimalBuffer := take p a1 @ ds @ drop W a1\<rparr>
                        \<lparr>UintToDecimalBuffer := replicate p 48 @ ds @ drop W a1\<rparr>))"
      by (rule UintToDecimalFixed_padded [OF run notle ip sl cp fill])
    then have "UintToDecimalFixed s v width =
        Inr (View DecBuf 0 W, s\<lparr>UintToDecimalBuffer := replicate p 48 @ ds @ drop W a1\<rparr>)"
      unfolding fin by simp
    then show ?thesis
      using False unfolding W_def p_def a1_def L_def ds_def by (simp only: if_False)
  qed
qed

text \<open>A width beyond the 20 bytes of the buffer: the encoder panics in a slice expression.\<close>

lemma UintToDecimalFixed_too_wide:
  fixes width :: "'i::len word"
  assumes len: "length (UintToDecimalBuffer s) = 20"
    and wide: "20 < sint width"
  shows "UintToDecimalFixed s v width = Inl SliceBoundsOutOfRange"
proof -
  define ds where "ds = dec_digits (unat v)"
  define L where "L = length ds"
  define a1 where "a1 = take (20 - L) (UintToDecimalBuffer s) @ ds"
  define s1 where "s1 = s\<lparr>UintToDecimalBuffer := a1\<rparr>"
  have L: "L \<le> 20" "length ds = L"
    using dec_digits_word_length [of v] by (simp_all add: L_def ds_def)
  have run: "UintToDecimal s v = Inr (View DecBuf (20 - L) 20, s1)"
    using UintToDecimal_eq [OF len, of v] by (simp only: s1_def a1_def L_def ds_def)
  have vl: "view_len (View DecBuf (20 - L) 20) = L"
    using L by simp
  have "(0::int) \<le> 2 ^ (LENGTH('i) - 1)" by simp
  then have "- (2 ^ (LENGTH('i) - 1)) \<le> sint width - int L"
    using wide L(1) by linarith
  then have pad: "sint (width - of_nat L) = sint width - int L"
    by (rule sint_sub_length)
  have la1: "length a1 = 20" using len L by (simp add: a1_def)
  have s1a: "UintToDecimalBuffer s1 = a1" by (simp add: s1_def)
  have pos: "0 < sint width - int L" using wide L(1) by linarith
  have notle: "\<not> width - of_nat (view_len (View DecBuf (20 - L) 20)) \<le>s 0"
    unfolding vl using pos by (simp add: word_sle_eq pad)
  have ip: "sint (width - of_nat (view_len (View DecBuf (20 - L) 20))) = sint width - int L"
    unfolding vl by (rule pad)
  show ?thesis
  proof (cases "20 < sint width - int L")
    case True
    then have "slice_of DecBuf (length (UintToDecimalBuffer s1)) (sint width - int L)
        (int (length (UintToDecimalBuffer s1))) = Inl SliceBoundsOutOfRange"
      unfolding s1a la1 by (simp add: slice_of_def)
    then show ?thesis
      by (rule UintToDecimalFixed_bad_slice [OF run notle ip])
  next
    case False
    define p where "p = nat (sint width - int L)"
    define m where "m = min (20 - p) L"
    have p: "sint width - int L = int p" "p \<le> 20" "0 < p"
      using False pos by (simp_all add: p_def)
    have m: "p + m \<le> 20" "m \<le> L"
      using p(2) by (simp_all add: m_def)
    have ip': "sint (width - of_nat (view_len (View DecBuf (20 - L) 20))) = int p"
      using ip by (simp only: p(1))
    have sl: "slice_of DecBuf (length (UintToDecimalBuffer s1)) (int p)
        (int (length (UintToDecimalBuffer s1))) = Inr (View DecBuf p 20)"
      unfolding s1a la1 using p(2) by (simp add: slice_of_def)
    define a2 where "a2 = take p a1 @ take m (drop (20 - L) a1) @ drop (p + m) a1"
    have cp: "copy_view s1 (View DecBuf p 20) (View DecBuf (20 - L) 20) =
        s\<lparr>UintToDecimalBuffer := a2\<rparr>"
      using copy_view_decimal [OF la1 L(2) L(1) m(1) m(2) m_def, of s]
      unfolding s1_def a2_def .
    have la2: "length a2 = 20"
      using m p(2) L by (simp add: a2_def la1)
    have "zero_fill_loop (int 0) (int p) a2 =
        Inr (take 0 a2 @ replicate (p - 0) 48 @ drop p a2)"
      by (rule zero_fill_loop_eq) (simp_all add: la2 p(2))
    then have fill: "zero_fill_loop 0 (int p) (UintToDecimalBuffer (s\<lparr>UintToDecimalBuffer := a2\<rparr>)) =
        Inr (replicate p 48 @ drop p a2)"
      by simp
    have fin: "slice_of DecBuf (length (replicate p (48 :: byte) @ drop p a2)) 0 (sint width) =
        Inl SliceBoundsOutOfRange"
      using wide p(2) by (simp add: slice_of_def la2)
    have "UintToDecimalFixed s v width =
        (case slice_of DecBuf (length (replicate p (48 :: byte) @ drop p a2)) 0 (sint width) of
           Inl e \<Rightarrow> Inl e
         | Inr vw \<Rightarrow>
             Inr (vw, s\<lparr>UintToDecimalBuffer := a2\<rparr>
                        \<lparr>UintToDecimalBuffer := replicate p 48 @ drop p a2\<rparr>))"
      by (rule UintToDecimalFixed_padded [OF run notle ip' sl cp fill])
    then show ?thesis
      unfolding fin by simp
  qed
qed

text \<open>
  A width so far below zero that \<open>width - len(buffer)\<close> wraps around gives a large
  positive \<open>pad\<close>, and the slice \<open>UintToDecimalBuffer[pad:]\<close> panics. The type \<open>int\<close>
  has at least 32 bits.
\<close>

lemma UintToDecimalFixed_wraps:
  fixes width :: "'i::len word"
  assumes len: "length (UintToDecimalBuffer s) = 20"
    and int_bits: "32 \<le> LENGTH('i)"
    and wrap: "sint width - int (length (dec_digits (unat v))) < - (2 ^ (LENGTH('i) - 1))"
  shows "UintToDecimalFixed s v width = Inl SliceBoundsOutOfRange"
proof -
  define ds where "ds = dec_digits (unat v)"
  define L where "L = length ds"
  define a1 where "a1 = take (20 - L) (UintToDecimalBuffer s) @ ds"
  define s1 where "s1 = s\<lparr>UintToDecimalBuffer := a1\<rparr>"
  define M :: int where "M = 2 ^ (LENGTH('i) - 1)"
  define pad where "pad = sint (width - of_nat L)"
  have L: "L \<le> 20" "length ds = L"
    using dec_digits_word_length [of v] by (simp_all add: L_def ds_def)
  have run: "UintToDecimal s v = Inr (View DecBuf (20 - L) 20, s1)"
    using UintToDecimal_eq [OF len, of v] by (simp only: s1_def a1_def L_def ds_def)
  have vl: "view_len (View DecBuf (20 - L) 20) = L"
    using L by simp
  have la1: "length a1 = 20" using len L by (simp add: a1_def)
  have s1a: "UintToDecimalBuffer s1 = a1" by (simp add: s1_def)
  have low: "- M \<le> sint width"
    unfolding M_def by (rule sint_ge)
  have "(2::int) ^ LENGTH('i) = 2 ^ Suc (LENGTH('i) - 1)" by simp
  then have two: "(2::int) ^ LENGTH('i) = 2 * M"
    by (simp only: power_Suc M_def)
  have big: "2147483648 \<le> M"
    using int_min_bound [OF int_bits] by (simp add: M_def)
  have "sint width - int L < - (2 ^ (LENGTH('i) - 1))"
    using wrap by (simp only: L_def ds_def)
  then have "sint width - int L + 2 ^ LENGTH('i) \<le> pad"
    unfolding pad_def by (rule sint_sub_length_wrapped)
  then have far: "20 < pad"
    using low two big L(1) by linarith
  have notle: "\<not> width - of_nat (view_len (View DecBuf (20 - L) 20)) \<le>s 0"
    unfolding vl using far by (simp add: word_sle_eq pad_def)
  have ip: "sint (width - of_nat (view_len (View DecBuf (20 - L) 20))) = pad"
    unfolding vl by (simp only: pad_def)
  have "slice_of DecBuf (length (UintToDecimalBuffer s1)) pad
      (int (length (UintToDecimalBuffer s1))) = Inl SliceBoundsOutOfRange"
    unfolding s1a la1 using far by (simp add: slice_of_def)
  then show ?thesis
    by (rule UintToDecimalFixed_bad_slice [OF run notle ip])
qed

lemma view_bytes_decimal_suffix:
  assumes "length a = 20" and "length ds \<le> 20"
  shows "view_bytes (s\<lparr>UintToDecimalBuffer := take (20 - length ds) a @ ds\<rparr>)
           (View DecBuf (20 - length ds) 20) = ds"
  using assms by simp

lemma view_bytes_decimal_prefix:
  assumes "length zs + length ds = n"
  shows "view_bytes (s\<lparr>UintToDecimalBuffer := zs @ ds @ rest\<rparr>) (View DecBuf 0 n) = zs @ ds"
  using assms by auto

text \<open>
  Claim C6 does not hold of the code. The claim gives a result for every width: a view
  of exactly \<open>width\<close> bytes, the digits of \<open>UintToDecimal\<close> behind \<open>0\<close> bytes, when the
  digits are fewer than \<open>width\<close>, and the view of \<open>UintToDecimal\<close> otherwise. The code
  does so exactly for the widths of at most 20 for which \<open>width - len(buffer)\<close> stays
  within \<open>int\<close>. For every other width it panics in a slice expression: for every width
  above 20, where the claim asks for a view longer than the array (the value 0 and the
  width 21, say), and for a width so negative that the subtraction wraps around.
\<close>

theorem UintToDecimalFixed_pads_or_panics:
  fixes width :: "'i::len word"
  assumes "buffers_ok s" and "32 \<le> LENGTH('i)"
  shows "\<exists>vw0 s0. UintToDecimal s v = Inr (vw0, s0)
      \<and> (if sint width \<le> 20
              \<and> - (2 ^ (LENGTH('i) - 1)) \<le> sint width - int (length (view_bytes s0 vw0))
          then
            (int (length (view_bytes s0 vw0)) < sint width \<longrightarrow>
               (\<exists>vw s'. UintToDecimalFixed s v width = Inr (vw, s')
                  \<and> int (length (view_bytes s' vw)) = sint width
                  \<and> view_bytes s' vw =
                      replicate (nat (sint width) - length (view_bytes s0 vw0)) 48
                        @ view_bytes s0 vw0))
            \<and> (sint width \<le> int (length (view_bytes s0 vw0)) \<longrightarrow>
                 UintToDecimalFixed s v width = Inr (vw0, s0))
          else UintToDecimalFixed s v width = Inl SliceBoundsOutOfRange)"
proof -
  define ds where "ds = dec_digits (unat v)"
  define vw0 where "vw0 = View DecBuf (20 - length ds) 20"
  define s0 where
    "s0 = s\<lparr>UintToDecimalBuffer := take (20 - length ds) (UintToDecimalBuffer s) @ ds\<rparr>"
  have len: "length (UintToDecimalBuffer s) = 20"
    using assms(1) by (simp add: buffers_ok_def)
  have L: "length ds \<le> 20"
    using dec_digits_word_length [of v] by (simp add: ds_def)
  have run: "UintToDecimal s v = Inr (vw0, s0)"
    using UintToDecimal_eq [OF len, of v] by (simp only: vw0_def s0_def ds_def)
  have b0: "view_bytes s0 vw0 = ds"
    unfolding s0_def vw0_def using len L by (rule view_bytes_decimal_suffix)
  have "if sint width \<le> 20 \<and> - (2 ^ (LENGTH('i) - 1)) \<le> sint width - int (length ds)
      then
        (int (length ds) < sint width \<longrightarrow>
           (\<exists>vw s'. UintToDecimalFixed s v width = Inr (vw, s')
              \<and> int (length (view_bytes s' vw)) = sint width
              \<and> view_bytes s' vw = replicate (nat (sint width) - length ds) 48 @ ds))
        \<and> (sint width \<le> int (length ds) \<longrightarrow> UintToDecimalFixed s v width = Inr (vw0, s0))
      else UintToDecimalFixed s v width = Inl SliceBoundsOutOfRange"
  proof (cases "sint width \<le> 20 \<and> - (2 ^ (LENGTH('i) - 1)) \<le> sint width - int (length ds)")
    case True
    then have hi: "sint width \<le> 20"
      and lo: "- (2 ^ (LENGTH('i) - 1)) \<le> sint width - int (length (dec_digits (unat v)))"
      by (simp_all add: ds_def)
    have fixed: "UintToDecimalFixed s v width =
       (if sint width \<le> int (length ds) then UintToDecimal s v
        else Inr (View DecBuf 0 (nat (sint width)),
               s\<lparr>UintToDecimalBuffer :=
                   replicate (nat (sint width) - length ds) 48 @ ds
                     @ drop (nat (sint width)) (take (20 - length ds) (UintToDecimalBuffer s) @ ds)\<rparr>))"
      using UintToDecimalFixed_eq [OF len lo hi] by (simp only: ds_def)
    have short: "sint width \<le> int (length ds) \<longrightarrow> UintToDecimalFixed s v width = Inr (vw0, s0)"
      using fixed run by simp
    have long: "int (length ds) < sint width \<longrightarrow>
        (\<exists>vw s'. UintToDecimalFixed s v width = Inr (vw, s')
           \<and> int (length (view_bytes s' vw)) = sint width
           \<and> view_bytes s' vw = replicate (nat (sint width) - length ds) 48 @ ds)"
    proof
      assume lt: "int (length ds) < sint width"
      define W where "W = nat (sint width)"
      have W: "sint width = int W" "length ds < W" using lt by (simp_all add: W_def)
      define s' where "s' = s\<lparr>UintToDecimalBuffer := replicate (W - length ds) 48 @ ds
          @ drop W (take (20 - length ds) (UintToDecimalBuffer s) @ ds)\<rparr>"
      have "UintToDecimalFixed s v width = Inr (View DecBuf 0 W, s')"
        using fixed lt by (simp add: W_def s'_def)
      moreover have "view_bytes s' (View DecBuf 0 W) = replicate (W - length ds) 48 @ ds"
        unfolding s'_def by (rule view_bytes_decimal_prefix) (use W(2) in simp)
      moreover have "int (length (replicate (W - length ds) (48 :: byte) @ ds)) = sint width"
        using W by simp
      ultimately show "\<exists>vw s'. UintToDecimalFixed s v width = Inr (vw, s')
           \<and> int (length (view_bytes s' vw)) = sint width
           \<and> view_bytes s' vw = replicate (nat (sint width) - length ds) 48 @ ds"
        unfolding W_def [symmetric] by (metis (no_types))
    qed
    show ?thesis
      by (subst if_P [OF True]) (use short long in blast)
  next
    case False
    have "UintToDecimalFixed s v width = Inl SliceBoundsOutOfRange"
    proof (cases "sint width \<le> 20")
      case wide: False
      then have "20 < sint width" by simp
      then show ?thesis by (rule UintToDecimalFixed_too_wide [OF len])
    next
      case True
      with False have "sint width - int (length (dec_digits (unat v))) < - (2 ^ (LENGTH('i) - 1))"
        by (simp add: ds_def)
      then show ?thesis by (rule UintToDecimalFixed_wraps [OF len assms(2)])
    qed
    then show ?thesis by (subst if_not_P [OF False])
  qed
  then show ?thesis
    using run unfolding b0 [symmetric] by blast
qed

theorem UintToDecimalFixed_pads_or_panics_witness:
  "buffers_ok initial_buffers \<and> 32 \<le> LENGTH(32)
   \<and> UintToDecimalFixed initial_buffers 0 (21 :: 32 word) = Inl SliceBoundsOutOfRange
   \<and> UintToDecimalFixed initial_buffers 0 (0x80000000 :: 32 word) = Inl SliceBoundsOutOfRange
   \<and> UintToDecimalFixed initial_buffers 0 (0x80000005 :: 32 word) = UintToDecimal initial_buffers 0
   \<and> (\<exists>vw s'. UintToDecimalFixed initial_buffers 42 (5 :: 32 word) = Inr (vw, s')
          \<and> view_bytes s' vw = bytes ''00042'')"
proof -
  have ok: "buffers_ok initial_buffers"
    by (simp add: buffers_ok_def initial_buffers_def)
  have len: "length (UintToDecimalBuffer initial_buffers) = 20"
    by (simp add: initial_buffers_def)
  have bits: "32 \<le> LENGTH(32)" by simp
  have wide: "UintToDecimalFixed initial_buffers 0 (21 :: 32 word) = Inl SliceBoundsOutOfRange"
    using UintToDecimalFixed_pads_or_panics [OF ok bits, of 0 21] by auto
  have run0: "UintToDecimal initial_buffers 0 =
      Inr (View DecBuf 19 20, initial_buffers\<lparr>UintToDecimalBuffer :=
             take 19 (UintToDecimalBuffer initial_buffers) @ [48]\<rparr>)"
    using UintToDecimal_eq [OF len, of 0] by (simp add: dec_digits_0)
  have b0: "view_bytes (initial_buffers\<lparr>UintToDecimalBuffer :=
             take 19 (UintToDecimalBuffer initial_buffers) @ [48]\<rparr>) (View DecBuf 19 20) = [48]"
    using len by simp
  have wrap: "UintToDecimalFixed initial_buffers 0 (0x80000000 :: 32 word) = Inl SliceBoundsOutOfRange"
    using UintToDecimalFixed_pads_or_panics [OF ok bits, of 0 "0x80000000"]
    unfolding run0 by (simp add: b0 del: view_bytes.simps)
  have low: "UintToDecimalFixed initial_buffers 0 (0x80000005 :: 32 word) =
      UintToDecimal initial_buffers 0"
    using UintToDecimalFixed_pads_or_panics [OF ok bits, of 0 "0x80000005"]
    unfolding run0 by (simp add: b0 del: view_bytes.simps)
  have d: "dec_digits (unat (42 :: 64 word)) = bytes ''42''"
    by (simp add: dec_digits_numeral bytes_def)
  have run: "UintToDecimal initial_buffers 42 =
      Inr (View DecBuf 18 20, initial_buffers\<lparr>UintToDecimalBuffer :=
             take 18 (UintToDecimalBuffer initial_buffers) @ bytes ''42''\<rparr>)"
    using UintToDecimal_eq [OF len, of 42] unfolding d by (simp add: bytes_def)
  have b: "view_bytes (initial_buffers\<lparr>UintToDecimalBuffer :=
             take 18 (UintToDecimalBuffer initial_buffers) @ bytes ''42''\<rparr>) (View DecBuf 18 20) =
      bytes ''42''"
    using len by (simp add: bytes_def)
  obtain vw0 s0 where w: "UintToDecimal initial_buffers 42 = Inr (vw0, s0)"
      "if sint (5 :: 32 word) \<le> 20
          \<and> - (2 ^ (LENGTH(32) - 1)) \<le> sint (5 :: 32 word) - int (length (view_bytes s0 vw0))
       then
         (int (length (view_bytes s0 vw0)) < sint (5 :: 32 word) \<longrightarrow>
            (\<exists>vw s'. UintToDecimalFixed initial_buffers 42 (5 :: 32 word) = Inr (vw, s')
               \<and> int (length (view_bytes s' vw)) = sint (5 :: 32 word)
               \<and> view_bytes s' vw =
                   replicate (nat (sint (5 :: 32 word)) - length (view_bytes s0 vw0)) 48
                     @ view_bytes s0 vw0))
         \<and> (sint (5 :: 32 word) \<le> int (length (view_bytes s0 vw0)) \<longrightarrow>
              UintToDecimalFixed initial_buffers 42 (5 :: 32 word) = Inr (vw0, s0))
       else UintToDecimalFixed initial_buffers 42 (5 :: 32 word) = Inl SliceBoundsOutOfRange"
    using UintToDecimalFixed_pads_or_panics [OF ok bits, of 42 5] by blast
  from w(1) run b have b42: "view_bytes s0 vw0 = bytes ''42''" by simp
  have "\<exists>vw s'. UintToDecimalFixed initial_buffers 42 (5 :: 32 word) = Inr (vw, s')
              \<and> view_bytes s' vw = bytes ''00042''"
    using w(2) unfolding b42 by (auto simp add: bytes_def numeral_3_eq_3)
  with ok bits wide wrap low show ?thesis by blast
qed

section \<open>Signed decimal encoder\<close>

lemma sint_word_of_int_small:
  "0 \<le> k \<Longrightarrow> k < 2 ^ 63 \<Longrightarrow> sint (word_of_int k :: 64 word) = k"
  by (simp add: sint_sbintrunc' signed_take_bit_int_eq_self)

lemma int64_rem_pos:
  assumes "0 < sint v"
  shows "sint (int64_rem v 10) = sint v mod 10"
proof -
  have "sint v smod 10 = sint v mod 10"
    using assms by (simp add: signed_modulo_int_def)
  moreover have "sint v mod 10 < 2 ^ 63"
    using pos_mod_bound [of 10 "sint v"] by simp
  ultimately show ?thesis
    by (simp add: int64_rem_def sint_word_of_int_small)
qed

lemma int64_quo_pos:
  assumes "0 < sint v"
  shows "sint (int64_quo v 10) = sint v div 10"
proof -
  have "sint v sdiv 10 = sint v div 10"
    using assms by (simp add: signed_divide_int_def)
  moreover have "sint v div 10 \<le> sint v"
    using assms by presburger
  moreover have "sint v < 2 ^ 63"
    using sint_less [of v] by simp
  moreover have "0 \<le> sint v div 10"
    using assms by simp
  ultimately show ?thesis
    by (simp add: int64_quo_def sint_word_of_int_small)
qed

lemma int_digits_loop_stop: "\<not> 0 <s v \<Longrightarrow> int_digits_loop v i buf = Inr (i, buf)"
  by (subst int_digits_loop.simps) simp

lemma int_digits_loop_step:
  assumes "0 < sint v" and "0 < k" and "k \<le> length buf"
  shows "int_digits_loop v (int k) buf =
     int_digits_loop (int64_quo v 10) (int (k - 1))
       (buf[k - 1 := 48 + of_nat (nat (sint v) mod 10)])"
proof -
  have ik: "int k - 1 = int (k - 1)" using assms by simp
  have rem: "sint (int64_rem v 10) = int (nat (sint v) mod 10)"
    using assms by (simp add: int64_rem_pos zmod_int)
  have glyph: "index_get ASCIIDecimalDigits (sint (int64_rem v 10)) =
      Inr (48 + of_nat (nat (sint v) mod 10))"
    using digit_glyph [of "nat (sint v) mod 10"] by (simp add: rem)
  have store: "index_set buf (int k - 1) g = Inr (buf[k - 1 := g])" for g
    using assms by (simp add: index_set_def nat_diff_distrib')
  have "int_digits_loop v (int k) buf =
     int_digits_loop (int64_quo v 10) (int k - 1) (buf[k - 1 := 48 + of_nat (nat (sint v) mod 10)])"
    using assms
    by (subst int_digits_loop.simps) (simp add: glyph store word_sless_alt)
  then show ?thesis by (simp only: ik)
qed

lemma int_digits_loop_eq:
  "x = nat (sint v) \<Longrightarrow> 0 < sint v \<Longrightarrow> length (dec_digits x) \<le> k \<Longrightarrow> k \<le> length buf \<Longrightarrow>
   int_digits_loop v (int k) buf =
     Inr (int (k - length (dec_digits x)), take (k - length (dec_digits x)) buf @ dec_digits x @ drop k buf)"
proof (induction x arbitrary: v k buf rule: dec_digits.induct)
  case (1 x)
  let ?g = "48 + of_nat (x mod 10) :: byte"
  let ?buf = "buf[k - 1 := ?g]"
  let ?v = "int64_quo v 10"
  from "1.prems" dec_digits_nonempty [of x] have k: "0 < k"
    by (cases "dec_digits x") auto
  have quo: "sint ?v = sint v div 10"
    using "1.prems" by (simp add: int64_quo_pos)
  then have xq: "x div 10 = nat (sint ?v)"
    using "1.prems" by (simp add: nat_div_distrib)
  have step: "int_digits_loop v (int k) buf = int_digits_loop ?v (int (k - 1)) ?buf"
    using int_digits_loop_step [of v k buf] "1.prems" k by simp
  have upd: "?buf = take (k - 1) buf @ ?g # drop k buf"
    using write_before [of "k - 1" buf ?g] k "1.prems" by simp
  show ?case
  proof (cases "x < 10")
    case True
    then have "sint ?v = 0" using quo "1.prems" by simp
    then have "\<not> 0 <s ?v" by (simp add: word_sless_alt)
    then have "int_digits_loop ?v (int (k - 1)) ?buf = Inr (int (k - 1), ?buf)"
      by (rule int_digits_loop_stop)
    moreover have "dec_digits x = [?g]"
      using True by (simp add: dec_digits_small)
    ultimately show ?thesis
      using step upd by simp
  next
    case False
    then have pos: "0 < sint ?v" using quo "1.prems" by simp
    have dd: "dec_digits x = dec_digits (x div 10) @ [?g]"
      using False by (simp add: dec_digits_large)
    then have len: "length (dec_digits (x div 10)) \<le> k - 1"
      using "1.prems" by simp
    have "int_digits_loop ?v (int (k - 1)) ?buf =
        Inr (int (k - 1 - length (dec_digits (x div 10))),
             take (k - 1 - length (dec_digits (x div 10))) ?buf
               @ dec_digits (x div 10) @ drop (k - 1) ?buf)"
      using False "1.prems" len pos xq by (intro "1.IH") simp_all
    moreover have "take (k - 1 - length (dec_digits (x div 10))) ?buf =
        take (k - length (dec_digits x)) buf"
      using dd by simp
    moreover have "drop (k - 1) ?buf = ?g # drop k buf"
      by (subst upd) (use k "1.prems" in simp)
    ultimately show ?thesis
      using step dd by simp
  qed
qed

lemma dec_digits_int64_length:
  assumes "0 < sint (m :: 64 word)"
  shows "length (dec_digits (nat (sint m))) \<le> 19"
proof -
  have "sint m < 2 ^ 63" using sint_less [of m] by simp
  then have "nat (sint m) < 2 ^ 63" using assms by (simp add: nat_less_iff)
  also have "(2::nat) ^ 63 < 10 ^ 19" by simp
  finally show ?thesis by (intro dec_digits_length_le) simp_all
qed

text \<open>The decimal encoder for signed values, in every state with a 20-byte buffer.\<close>

lemma IntToDecimal_eq:
  assumes len: "length (IntToDecimalBuffer s) = 20"
  shows "IntToDecimal s v =
     Inr (View IntBuf (20 - length (int_decimal v)) 20,
          s\<lparr>IntToDecimalBuffer :=
              take (20 - length (int_decimal v)) (IntToDecimalBuffer s) @ int_decimal v\<rparr>)"
proof -
  define a where "a = IntToDecimalBuffer s"
  define m where "m = (if v <s 0 then - v else v)"
  have la: "length a = 20" using len by (simp add: a_def)
  have ne: "a \<noteq> []" using la by auto
  have last: "a[19 := g] = take 19 a @ [g]" for g
    using write_before [of 19 a g] la by simp
  consider (zero) "m = 0" | (pos) "m \<noteq> 0" "0 <s m" | (wrapped) "m \<noteq> 0" "\<not> 0 <s m"
    by blast
  then show ?thesis
  proof cases
    case zero
    then have v: "v = 0" by (auto simp: m_def split: if_splits)
    have "int_decimal v = [48]" using v by (simp add: int_decimal_def)
    then show ?thesis
      using v la ne last [of 48]
      by (simp add: IntToDecimal_def Let_def a_def [symmetric] zero_glyph index_set_def
          int_digits_loop_stop slice_of_def)
  next
    case pos
    define ds where "ds = dec_digits (nat (sint m))"
    define L where "L = length ds"
    have sm: "0 < sint m" using pos by (simp add: word_sless_alt)
    have L: "L \<le> 19" "0 < L"
      using dec_digits_int64_length [OF sm] dec_digits_nonempty [of "nat (sint m)"]
      by (simp_all add: L_def ds_def)
    have loop: "int_digits_loop m (int 20) a = Inr (int (20 - L), take (20 - L) a @ ds @ drop 20 a)"
      unfolding L_def ds_def
      by (rule int_digits_loop_eq) (use sm L la in \<open>simp_all add: L_def ds_def\<close>)
    then have loop': "int_digits_loop m 20 a = Inr (int (20 - L), take (20 - L) a @ ds)"
      using la by simp
    show ?thesis
    proof (cases "v <s 0")
      case False
      then have mv: "m = v" by (simp add: m_def)
      have r: "int_decimal v = ds"
        using False pos by (simp add: int_decimal_def ds_def mv)
      have vz: "v \<noteq> 0" using pos mv by simp
      have lp: "int_digits_loop v 20 a = Inr (int (20 - L), take (20 - L) a @ ds)"
        using loop' by (simp only: mv)
      have l2: "length (take (20 - L) a @ ds) = 20" using la L by (simp add: L_def)
      show ?thesis
        unfolding r
        using False vz L la lp l2
        by (simp add: IntToDecimal_def Let_def a_def [symmetric] slice_of_def L_def [symmetric])
    next
      case True
      then have mv: "m = - v" by (simp add: m_def)
      have r: "int_decimal v = 45 # ds"
        using True pos by (simp add: int_decimal_def ds_def mv)
      have vz: "- v \<noteq> 0" using pos mv by simp
      have lp: "int_digits_loop (- v) 20 a = Inr (int (20 - L), take (20 - L) a @ ds)"
        using loop' by (simp only: mv)
      have l2: "length (take (20 - L) a @ ds) = 20" using la L by (simp add: L_def)
      have st: "index_set (take (20 - L) a @ ds) (int (20 - L) - 1) 45 =
          Inr (take (19 - L) a @ 45 # ds)"
      proof -
        have e: "20 - L = Suc (19 - L)" using L by arith
        have "19 - L < length a" using la by simp
        then have "take (Suc (19 - L)) a = take (19 - L) a @ [a ! (19 - L)]"
          by (rule take_Suc_conv_app_nth)
        then have "take (20 - L) a = take (19 - L) a @ [a ! (19 - L)]"
          by (simp only: e)
        then have "(take (20 - L) a @ ds)[19 - L := 45] = take (19 - L) a @ 45 # ds"
          using la L by (simp add: list_update_append)
        moreover have "nat (int (20 - L) - 1) = 19 - L" using L by simp
        moreover have "0 \<le> int (20 - L) - 1" using L by simp
        ultimately show ?thesis
          using L l2 by (simp add: index_set_def)
      qed
      have l3: "length (take (19 - L) a @ 45 # ds) = 20" using la L by (simp add: L_def)
      have i2: "0 < int (20 - L)" using L by simp
      have sz: "20 - length (45 # ds) = 19 - L" by (simp add: L_def)
      show ?thesis
        unfolding r sz
        using True vz la lp st l3 i2
        by (simp add: IntToDecimal_def Let_def a_def [symmetric] slice_of_def)
    qed
  next
    case wrapped
    have neg: "v <s 0"
    proof (rule ccontr)
      assume n: "\<not> v <s 0"
      then have "m = v" by (simp add: m_def)
      with wrapped have "sint v \<noteq> 0" "\<not> 0 < sint v"
        by (simp_all add: word_sless_alt signed_eq_0_iff)
      with n show False by (simp add: word_sless_alt)
    qed
    then have mv: "m = - v" by (simp add: m_def)
    have r: "int_decimal v = [45]"
      using neg wrapped by (simp add: int_decimal_def mv)
    have vz: "- v \<noteq> 0" using wrapped mv by simp
    have stop: "int_digits_loop (- v) 20 a = Inr (20, a)"
      using wrapped mv by (intro int_digits_loop_stop) simp
    show ?thesis
      unfolding r
      using neg vz la ne last [of 45] stop
      by (simp add: IntToDecimal_def Let_def a_def [symmetric] index_set_def slice_of_def)
  qed
qed

lemma view_bytes_int_suffix:
  assumes "length a = 20" and "length r \<le> 20"
  shows "view_bytes (s\<lparr>IntToDecimalBuffer := take (20 - length r) a @ r\<rparr>)
           (View IntBuf (20 - length r) 20) = r"
  using assms by simp

lemma int_decimal_cases:
  obtains m :: "64 word" where "int_decimal v =
      (if v <s 0 then [45] else [])
        @ (if m = 0 then [48] else if 0 <s m then dec_digits (nat (sint m)) else [])"
    and "v <s 0 \<or> m = 0 \<or> 0 <s m"
proof (cases "v <s 0")
  case True
  show ?thesis
    by (rule that [of "- v"]) (use True in \<open>simp_all add: int_decimal_def\<close>)
next
  case False
  then have "v = 0 \<or> 0 <s v"
    by (auto simp: word_sless_alt signed_eq_0_iff)
  then show ?thesis
    by (intro that [of v]) (use False in \<open>simp_all add: int_decimal_def\<close>)
qed

lemma int_decimal_length: "length (int_decimal v) \<le> 20"
proof -
  obtain m :: "64 word" where m: "int_decimal v =
      (if v <s 0 then [45] else [])
        @ (if m = 0 then [48] else if 0 <s m then dec_digits (nat (sint m)) else [])"
    by (rule int_decimal_cases)
  have "0 <s m \<Longrightarrow> length (dec_digits (nat (sint m))) \<le> 19"
    using dec_digits_int64_length [of m] by (simp add: word_sless_alt)
  then show ?thesis
    unfolding m by auto
qed

lemma int_decimal_nonempty: "int_decimal v \<noteq> []"
proof -
  obtain m :: "64 word" where m: "int_decimal v =
      (if v <s 0 then [45] else [])
        @ (if m = 0 then [48] else if 0 <s m then dec_digits (nat (sint m)) else [])"
    and c: "v <s 0 \<or> m = 0 \<or> 0 <s m"
    by (rule int_decimal_cases)
  show ?thesis
    unfolding m using c dec_digits_nonempty [of "nat (sint m)"] by auto
qed

text \<open>
  For every negative value other than the most negative one the negation is exact, and
  the encoder returns the minus sign followed by the digits of the magnitude.
\<close>

lemma int_decimal_negative:
  assumes "v <s 0" and "v \<noteq> 0x8000000000000000"
  shows "int_decimal v = 45 # dec_digits (nat (- sint v))"
proof -
  have lo: "- (2 ^ 63) \<le> sint v" using sint_ge [of v] by simp
  have "sint v \<noteq> - (2 ^ 63)"
  proof
    assume "sint v = - (2 ^ 63)"
    then have "sint v = sint (0x8000000000000000 :: 64 word)" by simp
    then have "v = 0x8000000000000000" by (simp only: signed_word_eqI)
    with assms show False by simp
  qed
  with lo have gt: "- (2 ^ 63) < sint v" by simp
  have neg: "sint v < 0" using assms by (simp add: word_sless_alt)
  have "- v = word_of_int (- sint v)" by simp
  then have "sint (- v) = signed_take_bit 63 (- sint v)"
    by (simp only: sint_sbintrunc') simp
  also have "\<dots> = - sint v"
    using gt neg by (intro signed_take_bit_int_eq_self) simp_all
  finally have sm: "sint (- v) = - sint v" .
  then have "0 <s - v" "- v \<noteq> 0"
    using neg by (auto simp: word_sless_alt)
  then show ?thesis
    using assms sm by (simp add: int_decimal_def)
qed

lemma IntToDecimal_negative:
  assumes "length (IntToDecimalBuffer s) = 20" and "v <s 0" and "v \<noteq> 0x8000000000000000"
  shows "\<exists>vw s'. IntToDecimal s v = Inr (vw, s')
           \<and> view_bytes s' vw = 45 # dec_digits (nat (- sint v))"
proof -
  have "view_bytes (s\<lparr>IntToDecimalBuffer :=
            take (20 - length (int_decimal v)) (IntToDecimalBuffer s) @ int_decimal v\<rparr>)
          (View IntBuf (20 - length (int_decimal v)) 20) = int_decimal v"
    using assms(1) int_decimal_length by (rule view_bytes_int_suffix)
  then show ?thesis
    using IntToDecimal_eq [OF assms(1), of v] int_decimal_negative [OF assms(2,3)]
    by (metis (no_types))
qed

lemma int_decimal_min: "int_decimal 0x8000000000000000 = [45]"
  by (simp add: int_decimal_def word_sless_alt)

text \<open>
  Claim C1 does not hold of the code at the most negative value. \<open>IntToDecimal\<close> negates
  in \<open>int64\<close>, where \<open>-(-2^63)\<close> wraps around to \<open>-2^63\<close>; the digit loop, guarded by
  \<open>v > 0\<close>, does not run, and the returned view is the minus sign alone, one byte, with
  no digit of \<open>9223372036854775808\<close>.
\<close>

theorem IntToDecimal_most_negative:
  assumes "length (IntToDecimalBuffer s) = 20"
  shows "sint (0x8000000000000000 :: 64 word) = - (2 ^ 63)
     \<and> (\<exists>s'. IntToDecimal s 0x8000000000000000 = Inr (View IntBuf 19 20, s')
            \<and> view_bytes s' (View IntBuf 19 20) = bytes ''-'')"
proof -
  have "view_bytes (s\<lparr>IntToDecimalBuffer := take (20 - length [45 :: byte]) (IntToDecimalBuffer s) @ [45]\<rparr>)
          (View IntBuf (20 - length [45 :: byte]) 20) = [45]"
    using assms by (intro view_bytes_int_suffix) simp_all
  then show ?thesis
    using IntToDecimal_eq [OF assms, of "0x8000000000000000"]
    by (simp add: int_decimal_min bytes_def)
qed

theorem IntToDecimal_most_negative_witness:
  "length (IntToDecimalBuffer initial_buffers) = 20
   \<and> (\<exists>s'. IntToDecimal initial_buffers 0x8000000000000000 = Inr (View IntBuf 19 20, s')
          \<and> view_bytes s' (View IntBuf 19 20) = bytes ''-'')"
proof -
  have len: "length (IntToDecimalBuffer initial_buffers) = 20"
    by (simp add: initial_buffers_def)
  show ?thesis
    using IntToDecimal_most_negative [OF len] len by blast
qed

text \<open>
  Claim C9 does not hold of the code. \<open>UintToDecimal\<close> and \<open>IntToDecimal\<close> return for every
  value, but \<open>UintToDecimalFixed\<close> panics for every width above 20: either the slice
  \<open>UintToDecimalBuffer[pad:]\<close> or the final slice \<open>UintToDecimalBuffer[:width]\<close> is out
  of the bounds of the 20-byte array.
\<close>

theorem UintToDecimalFixed_panics_beyond_buffer:
  fixes width :: "'i::len word"
  assumes "buffers_ok s" and "20 < sint width"
  shows "(\<exists>vw s'. UintToDecimal s v = Inr (vw, s'))
     \<and> (\<exists>vw s'. IntToDecimal s i = Inr (vw, s'))
     \<and> UintToDecimalFixed s v width = Inl SliceBoundsOutOfRange"
proof -
  have u: "length (UintToDecimalBuffer s) = 20" and d: "length (IntToDecimalBuffer s) = 20"
    using assms(1) by (simp_all add: buffers_ok_def)
  show ?thesis
    using UintToDecimal_eq [OF u, of v] IntToDecimal_eq [OF d, of i]
      UintToDecimalFixed_too_wide [OF u assms(2), of v]
    by simp
qed

theorem UintToDecimalFixed_panics_beyond_buffer_witness:
  "buffers_ok initial_buffers \<and> 20 < sint (22 :: 32 word)
   \<and> UintToDecimalFixed initial_buffers 12345 (22 :: 32 word) = Inl SliceBoundsOutOfRange"
proof -
  have ok: "buffers_ok initial_buffers"
    by (simp add: buffers_ok_def initial_buffers_def)
  have w: "20 < sint (22 :: 32 word)" by simp
  show ?thesis
    using UintToDecimalFixed_panics_beyond_buffer [OF ok w, of 12345 0] ok w by blast
qed

section \<open>Float decimal encoder\<close>

lemma frac_loop_skip: "precision \<le> i \<Longrightarrow> frac_loop pf i precision f idx buf = Inr (idx, buf)"
  by (subst frac_loop.simps) simp

lemma frac_bytes_length: "length (frac_bytes pf n f) = n"
  by (induction n arbitrary: f) (simp_all add: Let_def)

lemma frac_loop_step:
  assumes "idx < length buf" and "i < p"
  shows "frac_loop pf i p f (int idx) buf =
     frac_loop pf (i + 1) p
       (f64_sub (f64_mul f f64_ten) (int_to_f64 (sint (f64_to_int pf (f64_mul f f64_ten)))))
       (int (Suc idx)) (buf[idx := ucast (48 + f64_to_int pf (f64_mul f f64_ten))])"
  using assms by (subst frac_loop.simps) (simp add: Let_def index_set_def add.commute)

lemma frac_loop_eq:
  "idx + n \<le> length buf \<Longrightarrow>
   frac_loop pf i (i + int n) f (int idx) buf =
     Inr (int (idx + n), take idx buf @ frac_bytes pf n f @ drop (idx + n) buf)"
proof (induction n arbitrary: i f idx buf)
  case 0
  then show ?case by (simp add: frac_loop_skip)
next
  case (Suc n)
  let ?b = "ucast (48 + f64_to_int pf (f64_mul f f64_ten)) :: byte"
  let ?f = "f64_sub (f64_mul f f64_ten) (int_to_f64 (sint (f64_to_int pf (f64_mul f f64_ten))))"
  have e: "i + int (Suc n) = (i + 1) + int n" by simp
  have step: "frac_loop pf i (i + int (Suc n)) f (int idx) buf =
      frac_loop pf (i + 1) (i + int (Suc n)) ?f (int (Suc idx)) (buf[idx := ?b])"
    by (rule frac_loop_step) (use Suc.prems in simp_all)
  have "frac_loop pf (i + 1) ((i + 1) + int n) ?f (int (Suc idx)) (buf[idx := ?b]) =
      Inr (int (Suc idx + n),
           take (Suc idx) (buf[idx := ?b]) @ frac_bytes pf n ?f @ drop (Suc idx + n) (buf[idx := ?b]))"
    by (rule Suc.IH) (use Suc.prems in simp)
  then have rec: "frac_loop pf (i + 1) (i + int (Suc n)) ?f (int (Suc idx)) (buf[idx := ?b]) =
      Inr (int (Suc idx + n),
           take (Suc idx) (buf[idx := ?b]) @ frac_bytes pf n ?f @ drop (Suc idx + n) (buf[idx := ?b]))"
    by (simp only: e)
  have t: "take (Suc idx) (buf[idx := ?b]) = take idx buf @ [?b]"
    using Suc.prems by (simp add: take_Suc_conv_app_nth)
  have d: "drop (Suc idx + n) (buf[idx := ?b]) = drop (idx + Suc n) buf"
    by simp
  have fb: "frac_bytes pf (Suc n) f = ?b # frac_bytes pf n ?f"
    by (simp add: Let_def)
  show ?case
    unfolding step rec t d fb by simp
qed

text \<open>The function up to the write of the separator, with the intermediate results named.\<close>

lemma Float64ToDecimal_separator_panics:
  assumes "IntToDecimal s (f64_to_int64 pf x) = Inr (intBuf, s1)"
    and "slice_of FloatBuf (length (Float64ToDecimalBuffer s1)) 0
           (int (length (Float64ToDecimalBuffer s1))) = Inr dst"
    and "copy_view s1 dst intBuf = s2"
    and "index_set (Float64ToDecimalBuffer s2) (int (view_len intBuf)) 46 = Inl e"
  shows "Float64ToDecimal pf s x precision = Inl e"
  using assms by (simp add: Float64ToDecimal_def Let_def)

lemma Float64ToDecimal_after_separator:
  assumes "IntToDecimal s (f64_to_int64 pf x) = Inr (intBuf, s1)"
    and "slice_of FloatBuf (length (Float64ToDecimalBuffer s1)) 0
           (int (length (Float64ToDecimalBuffer s1))) = Inr dst"
    and "copy_view s1 dst intBuf = s2"
    and "index_set (Float64ToDecimalBuffer s2) (int (view_len intBuf)) 46 = Inr a3"
  shows "Float64ToDecimal pf s x precision =
     (if int (length a3) - (int (view_len intBuf) + 1) < sint precision then
        Inr ((NilView, ErrorCodeBuffersTooMuchPrecisionDigitsForFloat64),
             s2\<lparr>Float64ToDecimalBuffer := a3\<rparr>)
      else
        (case frac_loop pf 0 (sint precision) (f64_sub x (int_to_f64 (sint (f64_to_int64 pf x))))
                (int (view_len intBuf) + 1) a3 of
           Inl p \<Rightarrow> Inl p
         | Inr (idx3, a4) \<Rightarrow>
             (case slice_of FloatBuf (length a4) 0 idx3 of
                Inl p \<Rightarrow> Inl p
              | Inr vw \<Rightarrow> Inr ((vw, ErrorCodeNil), s2\<lparr>Float64ToDecimalBuffer := a4\<rparr>))))"
  using assms by (simp add: Float64ToDecimal_def Let_def)

lemma copy_view_float:
  assumes "length fb = 8" and "length (take lo ib @ r) = 20" and "length r = n" and "m = min 8 n"
  shows "copy_view (s\<lparr>IntToDecimalBuffer := take lo ib @ r, Float64ToDecimalBuffer := fb\<rparr>)
           (View FloatBuf 0 8) (View IntBuf (20 - n) 20) =
     s\<lparr>IntToDecimalBuffer := take lo ib @ r, Float64ToDecimalBuffer := take m r @ drop m fb\<rparr>"
  using assms by (simp add: Let_def)

text \<open>
  The whole function in a state with buffers of the declared sizes, in terms of the
  bytes \<open>r\<close> of the integer part: the separator goes to index \<open>length r\<close>, which is out
  of range from eight bytes on; the precision is compared with the room behind it.
\<close>

lemma Float64ToDecimal_eq:
  assumes ok: "buffers_ok s"
  shows "Float64ToDecimal pf s x precision =
     (let r = int_decimal (f64_to_int64 pf x);
          n = length r;
          s1 = s\<lparr>IntToDecimalBuffer := take (20 - n) (IntToDecimalBuffer s) @ r\<rparr>;
          fb = Float64ToDecimalBuffer s;
          P = nat (sint precision)
      in if 8 \<le> n then Inl IndexOutOfRange
         else if 7 - int n < sint precision then
           Inr ((NilView, ErrorCodeBuffersTooMuchPrecisionDigitsForFloat64),
                s1\<lparr>Float64ToDecimalBuffer := r @ 46 # drop (Suc n) fb\<rparr>)
         else
           Inr ((View FloatBuf 0 (Suc n + P), ErrorCodeNil),
                s1\<lparr>Float64ToDecimalBuffer :=
                     r @ 46 # frac_bytes pf P (f64_sub x (int_to_f64 (sint (f64_to_int64 pf x))))
                       @ drop (Suc n + P) fb\<rparr>))"
proof -
  define r where "r = int_decimal (f64_to_int64 pf x)"
  define n where "n = length r"
  define ib where "ib = IntToDecimalBuffer s"
  define fb where "fb = Float64ToDecimalBuffer s"
  define s1 where "s1 = s\<lparr>IntToDecimalBuffer := take (20 - n) ib @ r\<rparr>"
  define m where "m = min 8 n"
  define s2 where "s2 = s1\<lparr>Float64ToDecimalBuffer := take m r @ drop m fb\<rparr>"
  define frac where "frac = f64_sub x (int_to_f64 (sint (f64_to_int64 pf x)))"
  have lib: "length ib = 20" and lfb: "length fb = 8"
    using ok by (simp_all add: buffers_ok_def ib_def fb_def)
  have n: "n \<le> 20" "length r = n"
    using int_decimal_length [of "f64_to_int64 pf x"] by (simp_all add: n_def r_def)
  have run: "IntToDecimal s (f64_to_int64 pf x) = Inr (View IntBuf (20 - n) 20, s1)"
    using IntToDecimal_eq [of s "f64_to_int64 pf x"] lib
    by (simp only: s1_def n_def r_def ib_def)
  have vl: "view_len (View IntBuf (20 - n) 20) = n" using n by simp
  have f1: "Float64ToDecimalBuffer s1 = fb" by (simp add: s1_def fb_def)
  have sl: "slice_of FloatBuf (length (Float64ToDecimalBuffer s1)) 0
      (int (length (Float64ToDecimalBuffer s1))) = Inr (View FloatBuf 0 8)"
    unfolding f1 lfb by (simp add: slice_of_def)
  have s1': "s1 = s\<lparr>IntToDecimalBuffer := take (20 - n) ib @ r, Float64ToDecimalBuffer := fb\<rparr>"
    by (simp add: s1_def fb_def)
  have cp: "copy_view s1 (View FloatBuf 0 8) (View IntBuf (20 - n) 20) = s2"
  proof -
    have "length (take (20 - n) ib @ r) = 20" using lib n by simp
    then have "copy_view (s\<lparr>IntToDecimalBuffer := take (20 - n) ib @ r, Float64ToDecimalBuffer := fb\<rparr>)
           (View FloatBuf 0 8) (View IntBuf (20 - n) 20) =
        s\<lparr>IntToDecimalBuffer := take (20 - n) ib @ r, Float64ToDecimalBuffer := take m r @ drop m fb\<rparr>"
      using lfb n(2) m_def by (intro copy_view_float)
    then show ?thesis
      unfolding s1' [symmetric] s2_def by (simp add: s1_def)
  qed
  have f2: "Float64ToDecimalBuffer s2 = take m r @ drop m fb" by (simp add: s2_def)
  have l2: "length (take m r @ drop m fb) = 8"
    using lfb n by (simp add: m_def)
  show ?thesis
  proof (cases "8 \<le> n")
    case True
    have "index_set (Float64ToDecimalBuffer s2) (int (view_len (View IntBuf (20 - n) 20))) 46 =
        Inl IndexOutOfRange"
      unfolding vl f2 using True l2 by (simp add: index_set_def)
    then have "Float64ToDecimal pf s x precision = Inl IndexOutOfRange"
      by (rule Float64ToDecimal_separator_panics [OF run sl cp])
    then show ?thesis
      using True unfolding Let_def r_def [symmetric] n_def [symmetric] by (simp only: if_True)
  next
    case False
    then have n7: "n \<le> 7" by simp
    then have m: "m = n" by (simp add: m_def)
    define a3 where "a3 = r @ 46 # drop (Suc n) fb"
    have la3: "length a3 = 8" using n n7 lfb by (simp add: a3_def)
    have "drop n fb = fb ! n # drop (Suc n) fb"
      using lfb n7 by (simp add: Cons_nth_drop_Suc)
    then have "(r @ drop n fb)[n := 46] = r @ 46 # drop (Suc n) fb"
      using n by (simp add: list_update_append)
    then have dot: "index_set (Float64ToDecimalBuffer s2) (int (view_len (View IntBuf (20 - n) 20))) 46 =
        Inr a3"
      unfolding vl f2 m using n n7 lfb by (simp add: index_set_def a3_def)
    have after: "Float64ToDecimal pf s x precision =
       (if int (length a3) - (int (view_len (View IntBuf (20 - n) 20)) + 1) < sint precision then
          Inr ((NilView, ErrorCodeBuffersTooMuchPrecisionDigitsForFloat64),
               s2\<lparr>Float64ToDecimalBuffer := a3\<rparr>)
        else
          (case frac_loop pf 0 (sint precision) frac
                  (int (view_len (View IntBuf (20 - n) 20)) + 1) a3 of
             Inl p \<Rightarrow> Inl p
           | Inr (idx3, a4) \<Rightarrow>
               (case slice_of FloatBuf (length a4) 0 idx3 of
                  Inl p \<Rightarrow> Inl p
                | Inr vw \<Rightarrow> Inr ((vw, ErrorCodeNil), s2\<lparr>Float64ToDecimalBuffer := a4\<rparr>))))"
      unfolding frac_def by (rule Float64ToDecimal_after_separator [OF run sl cp dot])
    have upd: "s2\<lparr>Float64ToDecimalBuffer := a\<rparr> = s1\<lparr>Float64ToDecimalBuffer := a\<rparr>" for a
      by (simp add: s2_def)
    show ?thesis
    proof (cases "7 - int n < sint precision")
      case True
      then have c: "int (length a3) - (int (view_len (View IntBuf (20 - n) 20)) + 1) < sint precision"
        unfolding vl la3 by simp
      have "Float64ToDecimal pf s x precision =
          Inr ((NilView, ErrorCodeBuffersTooMuchPrecisionDigitsForFloat64),
               s1\<lparr>Float64ToDecimalBuffer := a3\<rparr>)"
        unfolding after by (simp only: c if_True upd)
      then show ?thesis
        using True False
        unfolding Let_def r_def [symmetric] n_def [symmetric] fb_def [symmetric] ib_def [symmetric]
          s1_def [symmetric] a3_def
        by (simp only: if_True if_False)
    next
      case room: False
      define P where "P = nat (sint precision)"
      have P: "Suc n + P \<le> 8" using room n7 by (simp add: P_def)
      have loop: "frac_loop pf 0 (sint precision) frac (int (Suc n)) a3 =
          Inr (int (Suc n + P), take (Suc n) a3 @ frac_bytes pf P frac @ drop (Suc n + P) a3)"
      proof (cases "0 \<le> sint precision")
        case True
        then have e: "sint precision = 0 + int P" by (simp add: P_def)
        show ?thesis
          unfolding e by (rule frac_loop_eq) (use P la3 in simp)
      next
        case False
        then have "P = 0" by (simp add: P_def)
        then show ?thesis
          using False by (simp add: frac_loop_skip)
      qed
      have tk: "take (Suc n) a3 = r @ [46]"
        using n by (simp add: a3_def)
      have dr: "drop (Suc n + P) a3 = drop (Suc n + P) fb"
        using n by (simp add: a3_def add.commute)
      define a4 where "a4 = r @ 46 # frac_bytes pf P frac @ drop (Suc n + P) fb"
      have loop': "frac_loop pf 0 (sint precision) frac
          (int (view_len (View IntBuf (20 - n) 20)) + 1) a3 = Inr (int (Suc n + P), a4)"
        unfolding vl using loop unfolding tk dr a4_def by (simp add: add.commute)
      have c: "\<not> int (length a3) - (int (view_len (View IntBuf (20 - n) 20)) + 1) < sint precision"
        unfolding vl la3 using room by simp
      have la4: "length a4 = length a3"
        using P n lfb by (simp add: a4_def a3_def frac_bytes_length)
      have fin: "slice_of FloatBuf (length a4) 0 (int (Suc n + P)) = Inr (View FloatBuf 0 (Suc n + P))"
        unfolding la4 la3 using P by (simp add: slice_of_def)
      have "Float64ToDecimal pf s x precision =
          Inr ((View FloatBuf 0 (Suc n + P), ErrorCodeNil), s1\<lparr>Float64ToDecimalBuffer := a4\<rparr>)"
        unfolding after by (simp only: c if_False loop' sum.case prod.case fin upd)
      then show ?thesis
        using room False
        unfolding Let_def r_def [symmetric] n_def [symmetric] fb_def [symmetric] ib_def [symmetric]
          s1_def [symmetric] a4_def P_def frac_def
        by (simp only: if_False)
    qed
  qed
qed

section \<open>Float decimal encoder: separator, precision check and digits\<close>

lemma float_view_prefix:
  assumes "length bs = n"
  shows "view_bytes (s\<lparr>Float64ToDecimalBuffer := bs @ rest\<rparr>) (View FloatBuf 0 n) = bs"
  using assms by simp

text \<open>
  With an integer part of at most seven bytes the function returns, and the error code
  is decided by the precision check alone.
\<close>

lemma Float64ToDecimal_precision_check:
  assumes "buffers_ok s" and "length (int_decimal (f64_to_int64 pf x)) \<le> 7"
  shows "\<exists>vw s'. Float64ToDecimal pf s x precision =
     Inr ((vw, if 8 - (int (length (int_decimal (f64_to_int64 pf x))) + 1) < sint precision
               then ErrorCodeBuffersTooMuchPrecisionDigitsForFloat64 else ErrorCodeNil), s')"
  using assms(2) unfolding Float64ToDecimal_eq [OF assms(1)] Let_def by auto

text \<open>Closed evaluations of the conversions and of the arithmetic on the example values.\<close>

lemma trunc_12345678: "f64_trunc 0x41678C29C0000000 = Some 12345678"
  by code_simp

lemma int_part_12345678: "f64_to_int64 pf 0x41678C29C0000000 = 12345678"
  by (simp add: f64_to_int64_def trunc_12345678)

lemma int_decimal_12345678: "int_decimal 12345678 = bytes ''12345678''"
  by (simp add: int_decimal_def word_sless_alt dec_digits_numeral dec_digits_1 bytes_def)

lemma value_12345678: "f64_value 0x41678C29C0000000 = 12345678"
  by code_simp

lemma trunc_m1234567: "f64_trunc 0xC132D68780000000 = Some (- 1234567)"
  by code_simp

lemma int_part_m1234567: "f64_to_int64 pf 0xC132D68780000000 = - 1234567"
  by (simp add: f64_to_int64_def trunc_m1234567)

lemma int_decimal_m1234567: "int_decimal (- 1234567) = bytes ''-1234567''"
  by (simp add: int_decimal_def word_sless_alt dec_digits_numeral dec_digits_1 bytes_def)

lemma value_m1234567: "f64_value 0xC132D68780000000 = - 2469135 / 2"
  by code_simp

lemma trunc_1_5: "f64_trunc 0x3FF8000000000000 = Some 1"
  by code_simp

lemma int_part_1_5: "f64_to_int64 pf 0x3FF8000000000000 = 1"
  by (simp add: f64_to_int64_def trunc_1_5)

lemma int_decimal_1: "int_decimal 1 = bytes ''1''"
  by (simp add: int_decimal_def word_sless_alt dec_digits_1 bytes_def)

lemma frac_1_5: "f64_sub 0x3FF8000000000000 (int_to_f64 (sint (1 :: 64 word))) = 0x3FE0000000000000"
  by code_simp

lemma value_1_5: "f64_value 0x3FF8000000000000 = 3 / 2" and value_0_5: "f64_value 0x3FE0000000000000 = 1 / 2"
  by code_simp+

lemma digits_0_5:
  "frac_bytes (pf32 :: 32 platform) 2 0x3FE0000000000000 = bytes ''50''"
  "frac_bytes (pf64 :: 64 platform) 2 0x3FE0000000000000 = bytes ''50''"
  by code_simp+

lemma trunc_m2_25: "f64_trunc 0xC002000000000000 = Some (- 2)"
  by code_simp

lemma int_part_m2_25: "f64_to_int64 pf 0xC002000000000000 = - 2"
  by (simp add: f64_to_int64_def trunc_m2_25)

lemma int_decimal_m2: "int_decimal (- 2) = bytes ''-2''"
  by (simp add: int_decimal_def word_sless_alt dec_digits_numeral dec_digits_1 bytes_def)

lemma frac_m2_25:
  "f64_sub 0xC002000000000000 (int_to_f64 (sint (- 2 :: 64 word))) = 0xBFD0000000000000"
  by code_simp

lemma value_m2_25: "f64_value 0xC002000000000000 = - 9 / 4"
  and value_m0_25: "f64_value 0xBFD0000000000000 = - 1 / 4"
  by code_simp+

lemma digits_m0_25:
  "frac_bytes (pf32 :: 32 platform) (Suc 0) 0xBFD0000000000000 = bytes ''.''"
  "frac_bytes (pf64 :: 64 platform) (Suc 0) 0xBFD0000000000000 = bytes ''.''"
  by code_simp+

lemma buffers_ok_initial: "buffers_ok initial_buffers"
  by (simp add: buffers_ok_def initial_buffers_def)

text \<open>
  Claim C10. When the view \<open>IntToDecimal\<close> returns for the integer part has eight bytes
  or more, \<open>Float64ToDecimal\<close> panics with an index out of range at the write of the
  separator, whatever the precision: no capacity check precedes that write. The value
  \<open>12345678.0\<close> is such an input.
\<close>

theorem Float64ToDecimal_long_integer_part_panics:
  assumes "buffers_ok s"
  shows "(\<forall>intBuf s1. IntToDecimal s (f64_to_int64 pf x) = Inr (intBuf, s1) \<longrightarrow>
            8 \<le> view_len intBuf \<longrightarrow> Float64ToDecimal pf s x precision = Inl IndexOutOfRange)
     \<and> f64_value 0x41678C29C0000000 = 12345678
     \<and> Float64ToDecimal pf s 0x41678C29C0000000 precision = Inl IndexOutOfRange"
proof -
  have len: "length (IntToDecimalBuffer s) = 20"
    using assms by (simp add: buffers_ok_def)
  have general: "Float64ToDecimal pf s x precision = Inl IndexOutOfRange"
    if run: "IntToDecimal s (f64_to_int64 pf x) = Inr (intBuf, s1)" and long: "8 \<le> view_len intBuf"
    for intBuf s1
  proof -
    have "intBuf = View IntBuf (20 - length (int_decimal (f64_to_int64 pf x))) 20"
      using run IntToDecimal_eq [OF len, of "f64_to_int64 pf x"] by simp
    then have "8 \<le> length (int_decimal (f64_to_int64 pf x))"
      using long by simp
    then show ?thesis
      unfolding Float64ToDecimal_eq [OF assms] Let_def by simp
  qed
  have "Float64ToDecimal pf s 0x41678C29C0000000 precision = Inl IndexOutOfRange"
    unfolding Float64ToDecimal_eq [OF assms] Let_def int_part_12345678 int_decimal_12345678
    by (simp add: bytes_def)
  then show ?thesis
    using general value_12345678 by blast
qed

theorem Float64ToDecimal_long_integer_part_panics_witness:
  "buffers_ok initial_buffers
   \<and> (\<exists>intBuf s1. IntToDecimal initial_buffers (f64_to_int64 platform64 0x41678C29C0000000) =
          Inr (intBuf, s1) \<and> 8 \<le> view_len intBuf)
   \<and> Float64ToDecimal platform64 initial_buffers 0x41678C29C0000000 2 = Inl IndexOutOfRange"
proof -
  have len: "length (IntToDecimalBuffer initial_buffers) = 20"
    by (simp add: initial_buffers_def)
  have "IntToDecimal initial_buffers (f64_to_int64 platform64 0x41678C29C0000000) =
      Inr (View IntBuf 12 20, initial_buffers\<lparr>IntToDecimalBuffer :=
             take 12 (IntToDecimalBuffer initial_buffers) @ bytes ''12345678''\<rparr>)"
    using IntToDecimal_eq [OF len, of 12345678]
    by (simp add: int_part_12345678 int_decimal_12345678 bytes_def)
  then have "\<exists>intBuf s1. IntToDecimal initial_buffers (f64_to_int64 platform64 0x41678C29C0000000) =
          Inr (intBuf, s1) \<and> 8 \<le> view_len intBuf"
    by simp
  then show ?thesis
    using Float64ToDecimal_long_integer_part_panics [OF buffers_ok_initial, of platform64
        "0x41678C29C0000000" 2] buffers_ok_initial
    by blast
qed

text \<open>
  Claim C8 does not hold of the code. For \<open>-1234567.5\<close> the integer part \<open>-1234567\<close> takes
  all eight bytes of the buffer. With precision 3 the room left after the integer part
  and the separator is \<open>8 - 9 < 3\<close>, so the claim asks for the error code
  \<open>TooMuchPrecisionForFloat\<close>; the function panics at the write of the separator, before it
  reaches the check.
\<close>

theorem Float64ToDecimal_panics_before_precision_check:
  assumes "buffers_ok s"
  shows "f64_value 0xC132D68780000000 = - 2469135 / 2
     \<and> length (int_decimal (f64_to_int64 pf 0xC132D68780000000)) = 8
     \<and> Float64ToDecimal pf s 0xC132D68780000000 3 = Inl IndexOutOfRange"
proof -
  have "Float64ToDecimal pf s 0xC132D68780000000 3 = Inl IndexOutOfRange"
    unfolding Float64ToDecimal_eq [OF assms] Let_def int_part_m1234567 int_decimal_m1234567
    by (simp add: bytes_def)
  then show ?thesis
    using value_m1234567 by (simp add: int_part_m1234567 int_decimal_m1234567 bytes_def)
qed

theorem Float64ToDecimal_panics_before_precision_check_witness:
  "buffers_ok initial_buffers
   \<and> Float64ToDecimal platform64 initial_buffers 0xC132D68780000000 3 = Inl IndexOutOfRange"
  using Float64ToDecimal_panics_before_precision_check [OF buffers_ok_initial, of platform64]
    buffers_ok_initial
  by blast

text \<open>
  Claim C2 holds for the first vector and not for the second. \<open>Float64ToDecimal(1.5, 2)\<close>
  is \<open>1.50\<close>. For \<open>-2.25\<close> the fractional part keeps the sign of the value: it is
  \<open>-0.25\<close>, its product with ten truncates to the digit \<open>-2\<close>, and the byte
  \<open>'0' + (-2)\<close> is the full stop. \<open>Float64ToDecimal(-2.25, 1)\<close> is \<open>-2..\<close>, not \<open>-2.2\<close>.
  Both hold for an \<open>int\<close> of 32 and of 64 bits.
\<close>

theorem Float64ToDecimal_negative_fraction:
  assumes "buffers_ok s"
  shows "f64_value 0x3FF8000000000000 = 3 / 2 \<and> f64_value 0xC002000000000000 = - 9 / 4
     \<and> (\<exists>s'. Float64ToDecimal (pf32 :: 32 platform) s 0x3FF8000000000000 2 =
               Inr ((View FloatBuf 0 4, ErrorCodeNil), s')
            \<and> view_bytes s' (View FloatBuf 0 4) = bytes ''1.50'')
     \<and> (\<exists>s'. Float64ToDecimal (pf64 :: 64 platform) s 0x3FF8000000000000 2 =
               Inr ((View FloatBuf 0 4, ErrorCodeNil), s')
            \<and> view_bytes s' (View FloatBuf 0 4) = bytes ''1.50'')
     \<and> (\<exists>s'. Float64ToDecimal pf32 s 0xC002000000000000 1 =
               Inr ((View FloatBuf 0 4, ErrorCodeNil), s')
            \<and> view_bytes s' (View FloatBuf 0 4) = bytes ''-2..'')
     \<and> (\<exists>s'. Float64ToDecimal pf64 s 0xC002000000000000 1 =
               Inr ((View FloatBuf 0 4, ErrorCodeNil), s')
            \<and> view_bytes s' (View FloatBuf 0 4) = bytes ''-2..'')"
proof -
  have a32: "\<exists>s'. Float64ToDecimal pf32 s 0x3FF8000000000000 2 =
               Inr ((View FloatBuf 0 4, ErrorCodeNil), s')
            \<and> view_bytes s' (View FloatBuf 0 4) = bytes ''1.50''"
    unfolding Float64ToDecimal_eq [OF assms] Let_def int_part_1_5 int_decimal_1 frac_1_5
    by (simp add: digits_0_5 bytes_def del: frac_bytes.simps)
  have a64: "\<exists>s'. Float64ToDecimal pf64 s 0x3FF8000000000000 2 =
               Inr ((View FloatBuf 0 4, ErrorCodeNil), s')
            \<and> view_bytes s' (View FloatBuf 0 4) = bytes ''1.50''"
    unfolding Float64ToDecimal_eq [OF assms] Let_def int_part_1_5 int_decimal_1 frac_1_5
    by (simp add: digits_0_5 bytes_def del: frac_bytes.simps)
  have b32: "\<exists>s'. Float64ToDecimal pf32 s 0xC002000000000000 1 =
               Inr ((View FloatBuf 0 4, ErrorCodeNil), s')
            \<and> view_bytes s' (View FloatBuf 0 4) = bytes ''-2..''"
    unfolding Float64ToDecimal_eq [OF assms] Let_def int_part_m2_25 int_decimal_m2 frac_m2_25
    by (simp add: digits_m0_25 bytes_def del: frac_bytes.simps)
  have b64: "\<exists>s'. Float64ToDecimal pf64 s 0xC002000000000000 1 =
               Inr ((View FloatBuf 0 4, ErrorCodeNil), s')
            \<and> view_bytes s' (View FloatBuf 0 4) = bytes ''-2..''"
    unfolding Float64ToDecimal_eq [OF assms] Let_def int_part_m2_25 int_decimal_m2 frac_m2_25
    by (simp add: digits_m0_25 bytes_def del: frac_bytes.simps)
  show ?thesis
    using value_1_5 value_m2_25 a32 a64 b32 b64 by (intro conjI)
qed

theorem Float64ToDecimal_negative_fraction_witness:
  "buffers_ok initial_buffers
   \<and> (\<exists>s'. Float64ToDecimal platform64 initial_buffers 0xC002000000000000 1 =
             Inr ((View FloatBuf 0 4, ErrorCodeNil), s')
          \<and> view_bytes s' (View FloatBuf 0 4) = bytes ''-2..'')
   \<and> (\<exists>s'. Float64ToDecimal platform64 initial_buffers 0x3FF8000000000000 2 =
             Inr ((View FloatBuf 0 4, ErrorCodeNil), s')
          \<and> view_bytes s' (View FloatBuf 0 4) = bytes ''1.50'')"
  using Float64ToDecimal_negative_fraction [OF buffers_ok_initial, of _ platform64]
    buffers_ok_initial
  by blast

section \<open>The buffers keep their lengths\<close>

text \<open>
  Every encoder that returns leaves the four arrays with the lengths it found, so the
  length assumptions of the statements above hold in every state a program can reach
  from \<open>initial_buffers\<close>.
\<close>

lemma UintToDecimal_preserves_ok:
  assumes "buffers_ok s" and "UintToDecimal s v = Inr (vw, s')"
  shows "buffers_ok s'"
proof -
  have len: "length (UintToDecimalBuffer s) = 20"
    using assms(1) by (simp add: buffers_ok_def)
  have "length (dec_digits (unat v)) \<le> 20" by (rule dec_digits_word_length)
  then show ?thesis
    using assms UintToDecimal_eq [OF len, of v] by (auto simp: buffers_ok_def)
qed

lemma IntToDecimal_preserves_ok:
  assumes "buffers_ok s" and "IntToDecimal s v = Inr (vw, s')"
  shows "buffers_ok s'"
proof -
  have len: "length (IntToDecimalBuffer s) = 20"
    using assms(1) by (simp add: buffers_ok_def)
  show ?thesis
    using assms IntToDecimal_eq [OF len, of v] int_decimal_length [of v]
    by (auto simp: buffers_ok_def)
qed

lemma UintToDecimalFixed_preserves_ok:
  fixes width :: "'i::len word"
  assumes "buffers_ok s" and "- (2 ^ (LENGTH('i) - 1)) + 20 \<le> sint width"
    and "UintToDecimalFixed s v width = Inr (vw, s')"
  shows "buffers_ok s'"
proof -
  have len: "length (UintToDecimalBuffer s) = 20"
    using assms(1) by (simp add: buffers_ok_def)
  have L: "length (dec_digits (unat v)) \<le> 20" by (rule dec_digits_word_length)
  have hi: "sint width \<le> 20"
  proof (rule ccontr)
    assume "\<not> sint width \<le> 20"
    then have "UintToDecimalFixed s v width = Inl SliceBoundsOutOfRange"
      by (intro UintToDecimalFixed_too_wide [OF len]) simp
    with assms(3) show False by simp
  qed
  have lo: "- (2 ^ (LENGTH('i) - 1)) \<le> sint width - int (length (dec_digits (unat v)))"
    using assms(2) L by linarith
  show ?thesis
    using assms(1,3) L hi UintToDecimalFixed_eq [OF len lo hi] UintToDecimal_eq [OF len, of v]
    by (auto simp: buffers_ok_def split: if_splits)
qed

lemma Float64ToDecimal_preserves_ok:
  assumes "buffers_ok s" and "Float64ToDecimal pf s x precision = Inr (r, s')"
  shows "buffers_ok s'"
proof -
  have n: "length (int_decimal (f64_to_int64 pf x)) \<le> 20" by (rule int_decimal_length)
  show ?thesis
    using assms n unfolding Float64ToDecimal_eq [OF assms(1)] Let_def
    by (auto simp: buffers_ok_def frac_bytes_length split: if_splits)
qed

lemma hex_encoders_preserve_ok:
  assumes "buffers_ok s"
  shows "Uint8ToHex s b = Inr (vw, s') \<Longrightarrow> buffers_ok s'"
    and "Uint16ToHex s h = Inr (vw, s') \<Longrightarrow> buffers_ok s'"
    and "Uint32ToHex s w = Inr (vw, s') \<Longrightarrow> buffers_ok s'"
    and "Uint64ToHex s q = Inr (vw, s') \<Longrightarrow> buffers_ok s'"
proof -
  have len: "length (UintToHexBuffer s) = 16"
    using assms by (simp add: buffers_ok_def)
  show "Uint8ToHex s b = Inr (vw, s') \<Longrightarrow> buffers_ok s'"
    using assms hex_encode_eq [OF len, of 2 "ucast b"]
    by (auto simp: Uint8ToHex_def buffers_ok_def hex_digits_length)
  show "Uint16ToHex s h = Inr (vw, s') \<Longrightarrow> buffers_ok s'"
    using assms hex_encode_eq [OF len, of 4 "ucast h"]
    by (auto simp: Uint16ToHex_def buffers_ok_def hex_digits_length)
  show "Uint32ToHex s w = Inr (vw, s') \<Longrightarrow> buffers_ok s'"
    using assms hex_encode_eq [OF len, of 8 "ucast w"]
    by (auto simp: Uint32ToHex_def buffers_ok_def hex_digits_length)
  show "Uint64ToHex s q = Inr (vw, s') \<Longrightarrow> buffers_ok s'"
    using assms hex_encode_eq [OF len, of 16 q]
    by (auto simp: Uint64ToHex_def buffers_ok_def hex_digits_length)
qed

end
